theory Spec2Isabelle
  imports Main "HOL-Library.Sublist"
begin

unbundle bit_operations_syntax

section \<open>Smart Sketch image upload: data model\<close>

text \<open>
  The development follows \<^verbatim>\<open>smartsketch-upload.py\<close>. Python integers are \<open>int\<close>,
  byte strings are lists of integers in \<open>0..255\<close>, text is \<open>string\<close> (ASCII). A raised
  exception is a value of \<open>error\<close>.
\<close>

definition DEVICE_WIDTH :: nat where
  "DEVICE_WIDTH = 160"

definition DEVICE_HEIGHT :: nat where
  "DEVICE_HEIGHT = 120"

datatype error = ValueError | TypeError | OSError | BleakError | CancelledError

text \<open>
  A pixel as the imaging library's pixel access hands it out: a tuple of band values, or
  a single number for a one-band mode.
\<close>

datatype pixel = Scalar int | Bands "int list"

record image =
  img_mode :: string
  img_size :: "nat \<times> nat"
  img_pixels :: "nat \<Rightarrow> nat \<Rightarrow> pixel"

text \<open>
  The imaging library is not part of the repository; the three calls the uploader makes
  are taken as parameters, each of which may raise.
\<close>

record pil =
  pil_open :: "string \<Rightarrow> error + image"
  pil_convert :: "image \<Rightarrow> string \<Rightarrow> error + image"
  pil_resize :: "image \<Rightarrow> nat \<times> nat \<Rightarrow> error + image"

text \<open>One constructor per \<^verbatim>\<open>print\<close> statement of the source; the arguments are the
  values interpolated into the line (the percentage of the progress line, a floating-point
  computation, is left out).\<close>

datatype line =
    Rule70
  | Title
  | LoadingImage string
  | OriginalSize "nat \<times> nat"
  | ConvertingToRGB string
  | ResizingTo nat nat
  | Rgb565Bytes nat
  | TotalChunks nat
  | SendingCommand
  | FailedOK
  | DeviceReady
  | UploadingChunks nat
  | Progress nat nat
  | ProgressComplete nat
  | AllChunksSent
  | WaitingForDevice
  | BlankRule70
  | UploadedOK
  | CheckProjector
  | NoDoneWarning
  | NoDoneHint
  | DeviceSaid string

text \<open>Calls made on the transport client, as the device side sees them.\<close>

datatype action = Write "int list" bool | StartNotify | StopNotify

text \<open>
  The uploader object together with the world it acts on: its notification log
  \<open>responses\<close>, the client's subscription flag and the calls it has completed, the
  event-loop clock in milliseconds, the number of suspension points passed so far, and
  the console.
\<close>

record world =
  responses :: "string list"
  subscribed :: bool
  wire :: "action list"
  now :: int
  tick :: nat
  stdout :: "line list"

datatype 'a outcome = Returned 'a | Raised error

type_synonym 'a prog = "world \<Rightarrow> 'a outcome \<times> world"

definition ret :: "'a \<Rightarrow> 'a prog" where
  "ret x w = (Returned x, w)"

definition raise :: "error \<Rightarrow> 'a prog" where
  "raise e w = (Raised e, w)"

definition bnd :: "'a prog \<Rightarrow> ('a \<Rightarrow> 'b prog) \<Rightarrow> 'b prog" where
  "bnd m f w = (case m w of (Returned x, w') \<Rightarrow> f x w' | (Raised e, w') \<Rightarrow> (Raised e, w'))"

definition lift :: "error + 'a \<Rightarrow> 'a prog" where
  "lift r w = (case r of Inl e \<Rightarrow> (Raised e, w) | Inr x \<Rightarrow> (Returned x, w))"

definition print :: "line \<Rightarrow> unit prog" where
  "print l w = (Returned (), w\<lparr>stdout := stdout w @ [l]\<rparr>)"

section \<open>Image transcoder\<close>

subsection \<open>\<^verbatim>\<open>load_and_prepare_image\<close>\<close>

definition load_and_prepare_image :: "pil \<Rightarrow> string \<Rightarrow> nat \<Rightarrow> nat \<Rightarrow> image prog" where
  "load_and_prepare_image lib image_path target_width target_height =
     bnd (print (LoadingImage image_path)) (\<lambda>_.
     bnd (lift (pil_open lib image_path)) (\<lambda>img.
     bnd (print (OriginalSize (img_size img))) (\<lambda>_.
     bnd (if img_mode img \<noteq> ''RGB''
          then bnd (print (ConvertingToRGB (img_mode img))) (\<lambda>_.
               lift (pil_convert lib img ''RGB''))
          else ret img) (\<lambda>img.
     bnd (if img_size img \<noteq> (target_width, target_height)
          then bnd (print (ResizingTo target_width target_height)) (\<lambda>_.
               lift (pil_resize lib img (target_width, target_height)))
          else ret img) (\<lambda>img.
     ret img)))))"

subsection \<open>\<^verbatim>\<open>rgb_to_rgb565\<close>\<close>

text \<open>\<^verbatim>\<open>r, g, b = pixels[x, y]\<close>: unpacking raises unless the pixel is a tuple of three.\<close>

fun unpack_rgb :: "pixel \<Rightarrow> error + (int \<times> int \<times> int)" where
  "unpack_rgb (Bands [r, g, b]) = Inr (r, g, b)"
| "unpack_rgb (Bands _) = Inl ValueError"
| "unpack_rgb (Scalar _) = Inl TypeError"

text \<open>\<^verbatim>\<open>bytearray.append\<close> raises on a value outside \<open>range(256)\<close>.\<close>

definition bytearray_append :: "int list \<Rightarrow> int \<Rightarrow> error + int list" where
  "bytearray_append buf v = (if 0 \<le> v \<and> v < 256 then Inr (buf @ [v]) else Inl ValueError)"

text \<open>Lines 81 to 85: the three masked shifts and the packed value.\<close>

definition pack565 :: "int \<Rightarrow> int \<Rightarrow> int \<Rightarrow> int" where
  "pack565 r g b =
     (let r5 = (drop_bit 3 r) AND 0x1F;
          g6 = (drop_bit 2 g) AND 0x3F;
          b5 = (drop_bit 3 b) AND 0x1F
      in ((push_bit 11 r5) OR (push_bit 5 g6)) OR b5)"

text \<open>The body of the inner loop (lines 79 to 88).\<close>

definition emit_pixel :: "pixel \<Rightarrow> int list \<Rightarrow> error + int list" where
  "emit_pixel p rgb565_data =
     (case unpack_rgb p of
        Inl e \<Rightarrow> Inl e
      | Inr (r, g, b) \<Rightarrow>
          (let rgb565 = pack565 r g b in
           case bytearray_append rgb565_data (rgb565 AND 0xFF) of
             Inl e \<Rightarrow> Inl e
           | Inr buf \<Rightarrow> bytearray_append buf ((drop_bit 8 rgb565) AND 0xFF)))"

text \<open>\<^verbatim>\<open>for x in range(width)\<close> at a fixed row \<open>y\<close>.\<close>

fun scan_row :: "(nat \<Rightarrow> nat \<Rightarrow> pixel) \<Rightarrow> nat \<Rightarrow> nat list \<Rightarrow> int list \<Rightarrow> error + int list" where
  "scan_row pixels y [] rgb565_data = Inr rgb565_data"
| "scan_row pixels y (x # xs) rgb565_data =
     (case emit_pixel (pixels x y) rgb565_data of
        Inl e \<Rightarrow> Inl e
      | Inr buf \<Rightarrow> scan_row pixels y xs buf)"

text \<open>\<^verbatim>\<open>for y in range(height)\<close>.\<close>

fun scan_rows :: "(nat \<Rightarrow> nat \<Rightarrow> pixel) \<Rightarrow> nat \<Rightarrow> nat list \<Rightarrow> int list \<Rightarrow> error + int list" where
  "scan_rows pixels width [] rgb565_data = Inr rgb565_data"
| "scan_rows pixels width (y # ys) rgb565_data =
     (case scan_row pixels y [0..<width] rgb565_data of
        Inl e \<Rightarrow> Inl e
      | Inr buf \<Rightarrow> scan_rows pixels width ys buf)"

definition rgb_to_rgb565 :: "image \<Rightarrow> error + int list" where
  "rgb_to_rgb565 img =
     (case img_size img of
        (width, height) \<Rightarrow> scan_rows (img_pixels img) width [0..<height] [])"

subsection \<open>What the specification says of a pixel\<close>

text \<open>
  The specification's words for one pixel: \<open>red5 = r >> 3\<close>, \<open>green6 = g >> 2\<close>,
  \<open>blue5 = b >> 3\<close>, the packed value \<open>(red5 << 11) | (green6 << 5) | blue5\<close>, and its low
  byte followed by its high byte.
\<close>

definition spec_pack565 :: "int \<Rightarrow> int \<Rightarrow> int \<Rightarrow> int" where
  "spec_pack565 r g b =
     (let red5 = drop_bit 3 r; green6 = drop_bit 2 g; blue5 = drop_bit 3 b
      in ((push_bit 11 red5) OR (push_bit 5 green6)) OR blue5)"

fun spec_pixel_bytes :: "pixel \<Rightarrow> int list" where
  "spec_pixel_bytes (Bands [r, g, b]) = [spec_pack565 r g b mod 256, spec_pack565 r g b div 256]"
| "spec_pixel_bytes _ = []"

text \<open>The row-major scan: rows from top to bottom, each from left to right.\<close>

definition spec_row_major :: "image \<Rightarrow> int list" where
  "spec_row_major img =
     concat (map (\<lambda>y. concat (map (\<lambda>x. spec_pixel_bytes (img_pixels img x y))
                                  [0..<fst (img_size img)]))
                 [0..<snd (img_size img)])"

text \<open>A pixel of three 8-bit channels, and an image made of such pixels.\<close>

fun rgb8_pixel :: "pixel \<Rightarrow> bool" where
  "rgb8_pixel (Bands [r, g, b]) = (0 \<le> r \<and> r < 256 \<and> 0 \<le> g \<and> g < 256 \<and> 0 \<le> b \<and> b < 256)"
| "rgb8_pixel _ = False"

definition rgb8_image :: "image \<Rightarrow> bool" where
  "rgb8_image img =
     list_all (\<lambda>y. list_all (\<lambda>x. rgb8_pixel (img_pixels img x y)) [0..<fst (img_size img)])
              [0..<snd (img_size img)]"

text \<open>
  Modelled from the spec: the unpacking direction is not in the source (the device does
  it); each field is shifted back to its place in an 8-bit channel.
\<close>

definition unpack565 :: "int \<Rightarrow> int \<times> int \<times> int" where
  "unpack565 v =
     (push_bit 3 ((drop_bit 11 v) AND 0x1F),
      push_bit 2 ((drop_bit 5 v) AND 0x3F),
      push_bit 3 (v AND 0x1F))"

subsection \<open>Arithmetic of the packing\<close>

lemma and_1F: "x AND (0x1F::int) = take_bit 5 x"
  by (simp add: take_bit_eq_mask mask_numeral)

lemma and_3F: "x AND (0x3F::int) = take_bit 6 x"
  by (simp add: take_bit_eq_mask mask_numeral)

lemma and_FF: "x AND (0xFF::int) = take_bit 8 x"
  by (simp add: take_bit_eq_mask mask_numeral)

lemma fields_disjoint:
  fixes x y z :: int
  shows "push_bit 11 (take_bit 5 x) + push_bit 5 (take_bit 6 y) + take_bit 5 z =
         (push_bit 11 (take_bit 5 x) OR push_bit 5 (take_bit 6 y)) OR take_bit 5 z"
proof -
  have "push_bit 5 (take_bit 6 y) + take_bit 5 z = push_bit 5 (take_bit 6 y) OR take_bit 5 z"
    by (rule disjunctive_add) (simp add: bit_push_bit_iff bit_take_bit_iff)
  moreover have "push_bit 11 (take_bit 5 x) + (push_bit 5 (take_bit 6 y) OR take_bit 5 z) =
      push_bit 11 (take_bit 5 x) OR (push_bit 5 (take_bit 6 y) OR take_bit 5 z)"
    by (rule disjunctive_add) (auto simp add: bit_push_bit_iff bit_take_bit_iff bit_or_iff)
  ultimately show ?thesis
    by (simp add: ac_simps)
qed

lemma pack565_arith:
  "pack565 r g b = 2048 * ((r div 8) mod 32) + 32 * ((g div 4) mod 64) + (b div 8) mod 32"
proof -
  have "pack565 r g b =
      (push_bit 11 (take_bit 5 (drop_bit 3 r)) OR push_bit 5 (take_bit 6 (drop_bit 2 g)))
        OR take_bit 5 (drop_bit 3 b)"
    by (simp only: pack565_def and_1F and_3F Let_def)
  also have "\<dots> = push_bit 11 (take_bit 5 (drop_bit 3 r)) + push_bit 5 (take_bit 6 (drop_bit 2 g))
      + take_bit 5 (drop_bit 3 b)"
    by (simp only: fields_disjoint)
  also have "\<dots> = 2048 * ((r div 8) mod 32) + 32 * ((g div 4) mod 64) + (b div 8) mod 32"
    by (simp add: push_bit_eq_mult take_bit_eq_mod drop_bit_eq_div)
  finally show ?thesis .
qed

lemma small_div_8: "0 \<le> r \<Longrightarrow> r < 256 \<Longrightarrow> take_bit 5 (drop_bit 3 r) = drop_bit 3 (r::int)"
  by (simp add: take_bit_eq_mod drop_bit_eq_div)

lemma small_div_4: "0 \<le> g \<Longrightarrow> g < 256 \<Longrightarrow> take_bit 6 (drop_bit 2 g) = drop_bit 2 (g::int)"
  by (simp add: take_bit_eq_mod drop_bit_eq_div)

lemma spec_pack565_eq:
  assumes "0 \<le> r" "r < 256" "0 \<le> g" "g < 256" "0 \<le> b" "b < 256"
  shows "spec_pack565 r g b = pack565 r g b"
  using assms
  by (simp only: spec_pack565_def pack565_def and_1F and_3F Let_def small_div_8 small_div_4)


lemma pack565_range: "0 \<le> pack565 r g b \<and> pack565 r g b < 65536"
proof -
  define R where "R = (r div 8) mod 32"
  define G where "G = (g div 4) mod 64"
  define B where "B = (b div 8) mod 32"
  have "0 \<le> R" "R < 32" "0 \<le> G" "G < 64" "0 \<le> B" "B < 32"
    by (simp_all add: R_def G_def B_def)
  moreover have "pack565 r g b = 2048 * R + 32 * G + B"
    by (simp add: pack565_arith R_def G_def B_def)
  ultimately show ?thesis
    by linarith
qed

lemma div256_bounds:
  fixes v :: int
  assumes "0 \<le> v" "v < 65536"
  shows "0 \<le> v div 256" "v div 256 < 256"
proof -
  define q where "q = v div 256"
  define m where "m = v mod 256"
  have "v = 256 * q + m" "0 \<le> m" "m < 256"
    by (simp_all add: q_def m_def)
  with assms have "0 \<le> q \<and> q < 256"
    by linarith
  then show "0 \<le> v div 256" "v div 256 < 256"
    by (simp_all add: q_def)
qed

lemma emit_pixel_bytes:
  "emit_pixel (Bands [r, g, b]) buf =
     Inr (buf @ [pack565 r g b mod 256, pack565 r g b div 256])"
proof -
  let ?v = "pack565 r g b"
  have lo: "?v AND 0xFF = ?v mod 256"
    by (simp add: and_FF take_bit_eq_mod)
  have "?v div 256 < 256" "0 \<le> ?v div 256"
    using pack565_range [of r g b] by (simp_all add: div256_bounds)
  then have hi: "(drop_bit 8 ?v) AND 0xFF = ?v div 256"
    by (simp add: and_FF take_bit_eq_mod drop_bit_eq_div)
  have "0 \<le> ?v mod 256" "?v mod 256 < 256"
    by simp_all
  with lo hi \<open>?v div 256 < 256\<close> \<open>0 \<le> ?v div 256\<close> show ?thesis
    by (simp add: emit_pixel_def bytearray_append_def Let_def)
qed

lemma rgb8_pixelE:
  assumes "rgb8_pixel p"
  obtains r g b where "p = Bands [r, g, b]"
    "0 \<le> r" "r < 256" "0 \<le> g" "g < 256" "0 \<le> b" "b < 256"
  using assms by (cases p rule: rgb8_pixel.cases) auto

lemma emit_pixel_spec:
  assumes "rgb8_pixel p"
  shows "emit_pixel p buf = Inr (buf @ spec_pixel_bytes p)"
proof -
  from assms obtain r g b where p: "p = Bands [r, g, b]"
    and "0 \<le> r" "r < 256" "0 \<le> g" "g < 256" "0 \<le> b" "b < 256"
    by (rule rgb8_pixelE)
  then have "spec_pack565 r g b = pack565 r g b"
    by (simp add: spec_pack565_eq)
  with p show ?thesis
    by (simp add: emit_pixel_bytes)
qed

lemma scan_row_spec:
  "list_all (\<lambda>x. rgb8_pixel (pixels x y)) xs \<Longrightarrow>
   scan_row pixels y xs buf = Inr (buf @ concat (map (\<lambda>x. spec_pixel_bytes (pixels x y)) xs))"
  by (induction xs arbitrary: buf) (simp_all add: emit_pixel_spec)

lemma scan_rows_spec:
  "list_all (\<lambda>y. list_all (\<lambda>x. rgb8_pixel (pixels x y)) [0..<width]) ys \<Longrightarrow>
   scan_rows pixels width ys buf =
     Inr (buf @ concat (map (\<lambda>y. concat (map (\<lambda>x. spec_pixel_bytes (pixels x y)) [0..<width])) ys))"
  by (induction ys arbitrary: buf) (simp_all add: scan_row_spec)

lemma spec_pixel_bytes_length: "rgb8_pixel p \<Longrightarrow> length (spec_pixel_bytes p) = 2"
  by (erule rgb8_pixelE) simp

lemma rgb_to_rgb565_rgb8:
  "rgb8_image img \<Longrightarrow> rgb_to_rgb565 img = Inr (spec_row_major img)"
proof -
  assume ok: "rgb8_image img"
  obtain width height where sz: "img_size img = (width, height)"
    by (cases "img_size img")
  from ok sz have rows:
    "list_all (\<lambda>y. list_all (\<lambda>x. rgb8_pixel (img_pixels img x y)) [0..<width]) [0..<height]"
    by (simp add: rgb8_image_def)
  have "rgb_to_rgb565 img = scan_rows (img_pixels img) width [0..<height] []"
    by (simp add: rgb_to_rgb565_def sz)
  also have "\<dots> = Inr (spec_row_major img)"
    using scan_rows_spec [OF rows, of "[]"] by (simp add: spec_row_major_def sz)
  finally show ?thesis .
qed

text \<open>
  C1. For an image whose pixels all have three 8-bit channels, \<^verbatim>\<open>rgb_to_rgb565\<close> returns,
  without raising, the bytes the specification describes: for each pixel \<open>(r, g, b)\<close>
  the low byte and then the high byte of \<open>((r >> 3) << 11) | ((g >> 2) << 5) | (b >> 3)\<close>,
  the pixels taken in row-major order. The masks \<open>& 0x1F\<close>, \<open>& 0x3F\<close> and \<open>& 0xFF\<close> of
  the source change nothing on 8-bit channels.
\<close>

theorem rgb_to_rgb565_row_major:
  "rgb8_image img \<Longrightarrow> rgb_to_rgb565 img = Inr (spec_row_major img)"
  by (rule rgb_to_rgb565_rgb8)

text \<open>A two by two image: red, green on the first row, blue, white on the second.\<close>

definition four_colours :: image where
  "four_colours =
     \<lparr>img_mode = ''RGB'', img_size = (2, 2),
      img_pixels = (\<lambda>x y. if y = 0 then (if x = 0 then Bands [255, 0, 0] else Bands [0, 255, 0])
                          else (if x = 0 then Bands [0, 0, 255] else Bands [255, 255, 255]))\<rparr>"

lemma four_colours_rgb8: "rgb8_image four_colours"
  by (simp add: rgb8_image_def four_colours_def upt_rec)

lemma four_colours_bytes:
  "spec_row_major four_colours = [0x00, 0xF8, 0xE0, 0x07, 0x1F, 0x00, 0xFF, 0xFF]"
  by (simp add: spec_row_major_def four_colours_def upt_rec spec_pack565_def
      drop_bit_eq_div push_bit_eq_mult or_int_unfold [of 63488] or_int_unfold [of 65504])

theorem rgb_to_rgb565_row_major_witness:
  "rgb8_image four_colours \<and>
   rgb_to_rgb565 four_colours = Inr [0x00, 0xF8, 0xE0, 0x07, 0x1F, 0x00, 0xFF, 0xFF]"
  using rgb_to_rgb565_row_major [OF four_colours_rgb8] four_colours_rgb8
  by (simp add: four_colours_bytes)

text \<open>
  C9. Packing an 8-bit channel triple and shifting each field of the packed value back
  to 8 bits loses at most 7 on red and on blue and at most 3 on green, and never
  overshoots the original.
\<close>

theorem pack565_roundtrip_error:
  assumes "0 \<le> r" "r < 256" "0 \<le> g" "g < 256" "0 \<le> b" "b < 256"
  shows "case unpack565 (pack565 r g b) of
           (r', g', b') \<Rightarrow> r' \<le> r \<and> r - r' \<le> 7 \<and> g' \<le> g \<and> g - g' \<le> 3 \<and> b' \<le> b \<and> b - b' \<le> 7"
proof -
  define R where "R = r div 8"
  define G where "G = g div 4"
  define B where "B = b div 8"
  have R: "0 \<le> R" "R < 32" and G: "0 \<le> G" "G < 64" and B: "0 \<le> B" "B < 32"
    using assms by (simp_all add: R_def G_def B_def)
  have v: "pack565 r g b = 2048 * R + 32 * G + B"
    using R G B by (simp add: pack565_arith R_def [symmetric] G_def [symmetric] B_def [symmetric])
  have fr: "(2048 * R + 32 * G + B) div 2048 = R"
    using R G B by (intro int_div_pos_eq [where r = "32 * G + B"]) simp_all
  have fg: "(2048 * R + 32 * G + B) div 32 = 64 * R + G"
    using R G B by (intro int_div_pos_eq [where r = B]) simp_all
  have fb: "(2048 * R + 32 * G + B) mod 32 = B"
    using R G B by (intro int_mod_pos_eq [where q = "64 * R + G"]) simp_all
  have gm: "(64 * R + G) mod 64 = G"
    using G by (intro int_mod_pos_eq [where q = R]) simp_all
  have u: "unpack565 (pack565 r g b) = (8 * R, 4 * G, 8 * B)"
    using R G B
    by (simp add: unpack565_def v and_1F and_3F take_bit_eq_mod drop_bit_eq_div
        push_bit_eq_mult fr fg fb gm)
  have "r = 8 * R + r mod 8" "g = 4 * G + g mod 4" "b = 8 * B + b mod 8"
    by (simp_all add: R_def G_def B_def)
  moreover have "0 \<le> r mod 8" "r mod 8 < 8" "0 \<le> g mod 4" "g mod 4 < 4" "0 \<le> b mod 8" "b mod 8 < 8"
    by simp_all
  ultimately have "8 * R \<le> r \<and> r - 8 * R \<le> 7 \<and> 4 * G \<le> g \<and> g - 4 * G \<le> 3 \<and> 8 * B \<le> b \<and> b - 8 * B \<le> 7"
    by linarith
  then show ?thesis
    by (simp add: u)
qed

theorem pack565_roundtrip_error_witness:
  "(0::int) \<le> 255 \<and> (255::int) < 256 \<and> (0::int) \<le> 3 \<and> (3::int) < 256 \<and> (0::int) \<le> 7 \<and> (7::int) < 256 \<and>
   (case unpack565 (pack565 255 3 7) of
      (r', g', b') \<Rightarrow> r' \<le> 255 \<and> 255 - r' \<le> 7 \<and> g' \<le> 3 \<and> 3 - g' \<le> 3 \<and> b' \<le> 7 \<and> 7 - b' \<le> 7)"
  using pack565_roundtrip_error [of 255 3 7] by simp


subsection \<open>The whole pipeline\<close>

text \<open>
  What the uploader relies on from the imaging library: an image in mode \<open>RGB\<close> has
  pixels of three 8-bit channels; a conversion to \<open>RGB\<close> that returns gives such an image;
  a resize that returns gives an image of the requested size in the mode of its source.
\<close>

definition image_ok :: "image \<Rightarrow> bool" where
  "image_ok img = (img_mode img = ''RGB'' \<longrightarrow> rgb8_image img)"

definition pil_contract :: "pil \<Rightarrow> bool" where
  "pil_contract lib =
     ((\<forall>path img. pil_open lib path = Inr img \<longrightarrow> image_ok img) \<and>
      (\<forall>img img'. pil_convert lib img ''RGB'' = Inr img' \<longrightarrow>
         img_mode img' = ''RGB'' \<and> image_ok img') \<and>
      (\<forall>img sz img'. image_ok img \<and> pil_resize lib img sz = Inr img' \<longrightarrow>
         img_mode img' = img_mode img \<and> img_size img' = sz \<and> image_ok img'))"

lemma length_concat_uniform:
  "list_all (\<lambda>x. length (f x) = k) xs \<Longrightarrow> length (concat (map f xs)) = k * length xs"
  by (induction xs) simp_all

lemma length_spec_row_major:
  assumes "rgb8_image img"
  shows "length (spec_row_major img) = 2 * fst (img_size img) * snd (img_size img)"
proof -
  let ?w = "fst (img_size img)" and ?h = "snd (img_size img)"
  let ?row = "\<lambda>y. concat (map (\<lambda>x. spec_pixel_bytes (img_pixels img x y)) [0..<?w])"
  have "list_all (\<lambda>y. length (?row y) = 2 * ?w) [0..<?h]"
    using assms unfolding rgb8_image_def list_all_iff
    by (auto intro!: length_concat_uniform [where xs = "[0..<?w]", simplified]
          simp: list_all_iff spec_pixel_bytes_length)
  then have "length (concat (map ?row [0..<?h])) = 2 * ?w * length [0..<?h]"
    by (rule length_concat_uniform)
  then show ?thesis
    by (simp add: spec_row_major_def)
qed

lemma load_and_prepare_image_result:
  assumes "pil_contract lib"
    and "load_and_prepare_image lib image_path tw th w = (Returned img, w')"
  shows "img_mode img = ''RGB'' \<and> img_size img = (tw, th) \<and> image_ok img"
proof -
  from assms(2) obtain img0 where open0: "pil_open lib image_path = Inr img0"
    by (auto simp: load_and_prepare_image_def bnd_def print_def lift_def ret_def
        split: sum.splits)
  with assms(1) have ok0: "image_ok img0"
    by (auto simp: pil_contract_def)
  obtain img1 where conv: "img_mode img0 = ''RGB'' \<and> img1 = img0 \<or>
      img_mode img0 \<noteq> ''RGB'' \<and> pil_convert lib img0 ''RGB'' = Inr img1"
    and rest: "img_size img1 = (tw, th) \<and> img = img1 \<or>
      img_size img1 \<noteq> (tw, th) \<and> pil_resize lib img1 (tw, th) = Inr img"
    using assms(2) open0
    by (auto simp: load_and_prepare_image_def bnd_def print_def lift_def ret_def
        split: sum.splits if_splits)
  from conv ok0 assms(1) have ok1: "img_mode img1 = ''RGB'' \<and> image_ok img1"
    by (auto simp: pil_contract_def)
  from rest ok1 assms(1) show ?thesis
    unfolding pil_contract_def by metis
qed

text \<open>
  C2. Whatever the dimensions and the colour mode of the decoded image, when
  \<^verbatim>\<open>load_and_prepare_image\<close> returns (the library decoded, converted and resampled the
  input without raising), \<^verbatim>\<open>rgb_to_rgb565\<close> of its result returns a buffer of exactly
  \<open>2 * 160 * 120 = 38400\<close> bytes.
\<close>

theorem transcode_38400_bytes:
  assumes "pil_contract lib"
    and "load_and_prepare_image lib image_path DEVICE_WIDTH DEVICE_HEIGHT w = (Returned img, w')"
  shows "\<exists>data. rgb_to_rgb565 img = Inr data \<and> length data = 38400"
proof -
  from load_and_prepare_image_result [OF assms]
  have "rgb8_image img" and sz: "img_size img = (160, 120)"
    by (simp_all add: image_ok_def DEVICE_WIDTH_def DEVICE_HEIGHT_def)
  then have "rgb_to_rgb565 img = Inr (spec_row_major img)" "length (spec_row_major img) = 38400"
    by (simp_all add: rgb_to_rgb565_rgb8 length_spec_row_major)
  then show ?thesis
    by blast
qed


text \<open>The world at the start of a run: nothing received, nothing sent, nothing printed.\<close>

definition fresh_world :: world where
  "fresh_world = \<lparr>responses = [], subscribed = False, wire = [], now = 0, tick = 0, stdout = []\<rparr>"

text \<open>
  A stand-in imaging library: every file decodes to a two-pixel grey image, conversion
  spreads the first band over three channels, resizing tiles the source.
\<close>

definition demo_grey :: image where
  "demo_grey = \<lparr>img_mode = ''L'', img_size = (2, 1),
                 img_pixels = (\<lambda>x y. Scalar (if x = 0 then 10 else 200))\<rparr>"

definition demo_convert :: "image \<Rightarrow> string \<Rightarrow> image" where
  "demo_convert img m =
     \<lparr>img_mode = m, img_size = img_size img,
      img_pixels = (\<lambda>x y. let v = (case img_pixels img x y of
                                      Scalar v \<Rightarrow> v mod 256
                                    | Bands [] \<Rightarrow> 0
                                    | Bands (v # _) \<Rightarrow> v mod 256)
                          in Bands [v, v, v])\<rparr>"

definition demo_resize :: "image \<Rightarrow> nat \<times> nat \<Rightarrow> image" where
  "demo_resize img sz =
     \<lparr>img_mode = img_mode img, img_size = sz,
      img_pixels = (\<lambda>x y. img_pixels img (x mod fst (img_size img)) (y mod snd (img_size img)))\<rparr>"

definition demo_pil :: pil where
  "demo_pil =
     \<lparr>pil_open = (\<lambda>path. Inr demo_grey),
      pil_convert = (\<lambda>img m. Inr (demo_convert img m)),
      pil_resize = (\<lambda>img sz. if fst (img_size img) = 0 \<or> snd (img_size img) = 0
                              then Inl ValueError else Inr (demo_resize img sz))\<rparr>"

lemma rgb8_image_iff:
  "rgb8_image img \<longleftrightarrow>
     (\<forall>y < snd (img_size img). \<forall>x < fst (img_size img). rgb8_pixel (img_pixels img x y))"
  by (auto simp: rgb8_image_def list_all_iff)

lemma demo_pil_contract: "pil_contract demo_pil"
proof -
  have "image_ok demo_grey"
    by (simp add: image_ok_def demo_grey_def)
  moreover have "image_ok (demo_convert img m)" for img m
    by (auto simp: image_ok_def rgb8_image_iff demo_convert_def Let_def
        split: pixel.splits list.splits)
  moreover have "image_ok (demo_resize img sz)"
    if "image_ok img" "fst (img_size img) \<noteq> 0" "snd (img_size img) \<noteq> 0" for img sz
    using that by (simp add: image_ok_def rgb8_image_iff demo_resize_def)
  ultimately show ?thesis
    by (auto simp: pil_contract_def demo_pil_def demo_convert_def demo_resize_def
        split: if_splits)
qed

lemma demo_load:
  "load_and_prepare_image demo_pil ''sketch.png'' DEVICE_WIDTH DEVICE_HEIGHT fresh_world =
     (Returned (demo_resize (demo_convert demo_grey ''RGB'') (160, 120)),
      fresh_world\<lparr>stdout := [LoadingImage ''sketch.png'', OriginalSize (2, 1),
                               ConvertingToRGB ''L'', ResizingTo 160 120]\<rparr>)"
  by (simp add: load_and_prepare_image_def bnd_def print_def lift_def ret_def demo_pil_def
      demo_grey_def demo_convert_def fresh_world_def DEVICE_WIDTH_def DEVICE_HEIGHT_def)

theorem transcode_38400_bytes_witness:
  "pil_contract demo_pil \<and>
   load_and_prepare_image demo_pil ''sketch.png'' DEVICE_WIDTH DEVICE_HEIGHT fresh_world =
     (Returned (demo_resize (demo_convert demo_grey ''RGB'') (160, 120)),
      fresh_world\<lparr>stdout := [LoadingImage ''sketch.png'', OriginalSize (2, 1),
                               ConvertingToRGB ''L'', ResizingTo 160 120]\<rparr>) \<and>
   (\<exists>data. rgb_to_rgb565 (demo_resize (demo_convert demo_grey ''RGB'') (160, 120)) = Inr data \<and>
      length data = 38400)"
  using transcode_38400_bytes [OF demo_pil_contract demo_load] demo_pil_contract demo_load
  by blast


section \<open>Chunk framer\<close>

text \<open>\<^verbatim>\<open>range(i, stop, step)\<close> for a positive step, counting up from \<open>i\<close>.\<close>

function range_from :: "nat \<Rightarrow> nat \<Rightarrow> nat \<Rightarrow> nat list" where
  "range_from i stop step =
     (if step = 0 \<or> stop \<le> i then [] else i # range_from (i + step) stop step)"
  by pat_completeness auto
termination
  by (relation "measure (\<lambda>(i, stop, step). stop - i)") auto

declare range_from.simps [simp del]

text \<open>
  \<^verbatim>\<open>range(0, stop, step)\<close> as Python has it: a zero step raises, a negative step gives
  the empty range (the stop is a length, never negative).
\<close>

definition range_step :: "nat \<Rightarrow> int \<Rightarrow> error + nat list" where
  "range_step stop step =
     (if step = 0 then Inl ValueError
      else if step < 0 then Inr []
      else Inr (range_from 0 stop (nat step)))"

text \<open>The slice \<^verbatim>\<open>xs[i:j]\<close> for a start \<open>i \<ge> 0\<close>; a negative \<open>j\<close> counts from the end.\<close>

definition slice :: "'a list \<Rightarrow> nat \<Rightarrow> int \<Rightarrow> 'a list" where
  "slice xs i j =
     (let n = int (length xs);
          stop = (if j < 0 then max 0 (n + j) else min j n)
      in take (nat stop - i) (drop i xs))"

text \<open>
  \<^verbatim>\<open>prepare_chunks\<close>: the buffer is reversed, then cut at the indices
  \<^verbatim>\<open>range(0, len(data), chunk_size)\<close>.
\<close>

definition prepare_chunks :: "int list \<Rightarrow> int \<Rightarrow> error + int list list" where
  "prepare_chunks rgb565_data chunk_size =
     (let data = rev rgb565_data in
      case range_step (length data) chunk_size of
        Inl e \<Rightarrow> Inl e
      | Inr starts \<Rightarrow> Inr (map (\<lambda>i. slice data i (int i + chunk_size)) starts))"

lemma slice_take_drop:
  "0 < c \<Longrightarrow> slice xs i (int i + c) = take (nat c) (drop i xs)"
  by (auto simp: slice_def Let_def min_def take_all_iff nat_diff_distrib' nat_add_distrib)

lemma ceil_div_step:
  fixes d step :: nat
  assumes "0 < step" "0 < d"
  shows "(d + step - 1) div step = Suc ((d - step + step - 1) div step)"
proof -
  from assms obtain e where d: "d = Suc e"
    by (cases d) simp_all
  have l: "(d + step - 1) div step = Suc (e div step)"
    using assms div_add_self2 [of step e] by (simp add: d)
  show ?thesis
  proof (cases "step \<le> d")
    case True
    then have "d - step + step - 1 = e"
      by (simp add: d)
    with l show ?thesis
      by simp
  next
    case False
    then have "d - step + step - 1 = step - 1" "e < step"
      by (simp_all add: d)
    with l assms show ?thesis
      by simp
  qed
qed

lemma range_from_multiples:
  "0 < step \<Longrightarrow>
   range_from i stop step = map (\<lambda>k. i + k * step) [0..<(stop - i + step - 1) div step]"
proof (induction i stop step rule: range_from.induct)
  case (1 i stop step)
  show ?case
  proof (cases "stop \<le> i")
    case True
    with "1.prems" show ?thesis
      by (simp add: range_from.simps [of i])
  next
    case False
    let ?n = "(stop - (i + step) + step - 1) div step"
    have n: "(stop - i + step - 1) div step = Suc ?n"
      using ceil_div_step [of step "stop - i"] False "1.prems"
      by (simp only: diff_diff_left [symmetric] not_le zero_less_diff)
    have "range_from i stop step = i # range_from (i + step) stop step"
      using False "1.prems" by (simp add: range_from.simps [of i])
    also have "\<dots> = i # map (\<lambda>k. i + step + k * step) [0..<?n]"
      using "1.IH" False "1.prems" by simp
    also have "\<dots> = map (\<lambda>k. i + k * step) [0..<Suc ?n]"
      by (simp add: upt_conv_Cons map_Suc_upt [symmetric] del: upt_Suc)
    finally show ?thesis
      by (simp only: n)
  qed
qed

lemma concat_range_from:
  "0 < step \<Longrightarrow>
   concat (map (\<lambda>i. take step (drop i xs)) (range_from i (length xs) step)) = drop i xs"
proof (induction i "length xs" step rule: range_from.induct)
  case (1 i step)
  show ?case
  proof (cases "length xs \<le> i")
    case True
    then show ?thesis
      by (simp add: range_from.simps [of i])
  next
    case False
    with 1 have "concat (map (\<lambda>i. take step (drop i xs)) (range_from (i + step) (length xs) step))
        = drop (i + step) xs"
      by simp
    with False "1.prems" show ?thesis
      by (simp add: range_from.simps [of i] add.commute [of i step] drop_drop [symmetric] del: drop_drop)
  qed
qed


lemma prepare_chunks_eq:
  assumes "1 \<le> chunk_size"
  shows "prepare_chunks data chunk_size =
     Inr (map (\<lambda>i. take (nat chunk_size) (drop i (rev data)))
            (range_from 0 (length data) (nat chunk_size)))"
  using assms by (simp add: prepare_chunks_def range_step_def slice_take_drop Let_def)

lemma chunk_count_bounds:
  fixes n c :: nat
  assumes "0 < c"
  shows "(n + c - 1) div c * c < n + c" "n \<le> (n + c - 1) div c * c"
proof -
  define m where "m = (n + c - 1) div c"
  have "m * c \<le> n + c - 1"
    unfolding m_def by (rule div_times_less_eq_dividend)
  with assms have "m * c < n + c"
    by simp
  then show "(n + c - 1) div c * c < n + c"
    by (simp only: m_def)
  have "n + c - 1 < m * c + c"
    unfolding m_def using assms
    by (metis add.commute dividend_less_div_times mult.commute)
  with assms have "n \<le> m * c"
    by simp
  then show "n \<le> (n + c - 1) div c * c"
    by (simp only: m_def)
qed

text \<open>
  C3. For every buffer and every chunk size of at least 1, \<^verbatim>\<open>prepare_chunks\<close> returns
  without raising; the chunks are the consecutive slices of \<open>chunk_size\<close> bytes of the
  reversed buffer, every chunk but the last is full and the last holds between 1 and
  \<open>chunk_size\<close> bytes, there are \<open>\<lceil>len / chunk_size\<rceil>\<close> of them, and concatenating them and
  reversing the result gives the buffer back.
\<close>

theorem prepare_chunks_lossless:
  assumes "1 \<le> chunk_size"
  shows "\<exists>chunks. prepare_chunks data chunk_size = Inr chunks \<and>
           concat chunks = rev data \<and>
           rev (concat chunks) = data \<and>
           length chunks = (length data + nat chunk_size - 1) div nat chunk_size \<and>
           (\<forall>k < length chunks.
              chunks ! k = take (nat chunk_size) (drop (k * nat chunk_size) (rev data)) \<and>
              1 \<le> length (chunks ! k) \<and> length (chunks ! k) \<le> nat chunk_size \<and>
              (Suc k < length chunks \<longrightarrow> length (chunks ! k) = nat chunk_size))"
proof -
  define c where "c = nat chunk_size"
  define n where "n = length data"
  define m where "m = (n + c - 1) div c"
  define chunks where "chunks = map (\<lambda>k. take c (drop (k * c) (rev data))) [0..<m]"
  from assms have c: "0 < c"
    by (simp add: c_def)
  have run: "prepare_chunks data chunk_size = Inr chunks"
    using c by (simp add: prepare_chunks_eq [OF assms] range_from_multiples chunks_def
        c_def [symmetric] n_def [symmetric] m_def comp_def)
  have "concat chunks = drop 0 (rev data)"
    using concat_range_from [OF c, of "rev data" 0] c
    by (simp add: chunks_def range_from_multiples m_def n_def comp_def)
  then have cat: "concat chunks = rev data"
    by simp
  have len: "length chunks = m"
    by (simp add: chunks_def)
  have each: "chunks ! k = take c (drop (k * c) (rev data)) \<and>
      1 \<le> length (chunks ! k) \<and> length (chunks ! k) \<le> c \<and>
      (Suc k < length chunks \<longrightarrow> length (chunks ! k) = c)" if k: "k < length chunks" for k
  proof -
    from k have km: "k < m"
      by (simp add: len)
    then have "Suc k * c \<le> m * c"
      by (intro mult_le_mono1) simp
    moreover have "m * c < n + c"
      unfolding m_def using c by (rule chunk_count_bounds)
    ultimately have inside: "k * c < n"
      by simp
    have nth: "chunks ! k = take c (drop (k * c) (rev data))"
      using km by (simp add: chunks_def)
    have full: "length (chunks ! k) = c" if "Suc k < length chunks"
    proof -
      from that have "Suc (Suc k) * c \<le> m * c"
        by (intro mult_le_mono1) (simp add: len)
      with \<open>m * c < n + c\<close> have "Suc k * c \<le> n"
        by simp
      then show ?thesis
        by (simp add: nth n_def)
    qed
    from inside c show ?thesis
      using full by (auto simp: nth n_def)
  qed
  have rev_cat: "rev (concat chunks) = data"
    by (simp add: cat)
  have count: "length chunks = (length data + nat chunk_size - 1) div nat chunk_size"
    by (simp add: len m_def n_def c_def)
  have "\<forall>k < length chunks.
      chunks ! k = take (nat chunk_size) (drop (k * nat chunk_size) (rev data)) \<and>
      1 \<le> length (chunks ! k) \<and> length (chunks ! k) \<le> nat chunk_size \<and>
      (Suc k < length chunks \<longrightarrow> length (chunks ! k) = nat chunk_size)"
    using each unfolding c_def by blast
  with run cat rev_cat count show ?thesis
    by blast
qed

theorem prepare_chunks_lossless_witness:
  "(1::int) \<le> 2 \<and> prepare_chunks [1, 2, 3, 4, 5] 2 = Inr [[5, 4], [3, 2], [1]] \<and>
   rev (concat [[5, 4], [3, 2], [1::int]]) = [1, 2, 3, 4, 5]"
proof -
  have h: "(1::int) \<le> 2"
    by simp
  from prepare_chunks_lossless [OF h, of "[1, 2, 3, 4, 5]"]
  obtain chunks where run: "prepare_chunks [1, 2, 3, 4, 5] 2 = Inr chunks"
    and len: "length chunks = 3"
    and each: "\<forall>k < length chunks. chunks ! k = take (nat 2) (drop (k * nat 2) (rev [1, 2, 3, 4, 5]))"
    by auto
  have "chunks = map (\<lambda>k. chunks ! k) [0..<3]"
    using len by (metis map_nth)
  also have "\<dots> = [[5, 4], [3, 2], [1]]"
    using each len by (simp add: upt_rec numeral_2_eq_2)
  finally show ?thesis
    using run by simp
qed



section \<open>Notification handler\<close>

text \<open>
  \<^verbatim>\<open>str.lower()\<close> on ASCII text: the capital letters move to their small forms, every
  other character stays.
\<close>

definition ascii_lower :: "char \<Rightarrow> char" where
  "ascii_lower c =
     (let n = of_char c :: int in if 65 \<le> n \<and> n \<le> 90 then char_of (n + 32) else c)"

definition lower :: "string \<Rightarrow> string" where
  "lower s = map ascii_lower s"

text \<open>Python's substring test \<^verbatim>\<open>needle in s\<close>.\<close>

fun str_in :: "string \<Rightarrow> string \<Rightarrow> bool" where
  "str_in needle [] = (needle = [])"
| "str_in needle (c # cs) = (prefix needle (c # cs) \<or> str_in needle cs)"

text \<open>
  \<^verbatim>\<open>str.isspace\<close> on an ASCII character: tab to carriage return, the four separators
  \<open>0x1C\<close> to \<open>0x1F\<close>, and the space. \<^verbatim>\<open>str.strip()\<close> removes such characters at both ends.
\<close>

definition isspace :: "char \<Rightarrow> bool" where
  "isspace c = (let n = of_char c :: int in (9 \<le> n \<and> n \<le> 13) \<or> (28 \<le> n \<and> n \<le> 32))"

definition strip :: "string \<Rightarrow> string" where
  "strip s = rev (dropWhile isspace (rev (dropWhile isspace s)))"

text \<open>\<^verbatim>\<open>data.decode('ascii', errors='ignore')\<close>: bytes of 128 and above are dropped.\<close>

definition decode_ascii_ignore :: "int list \<Rightarrow> string" where
  "decode_ascii_ignore data = map char_of (filter (\<lambda>b. b < 128) data)"

text \<open>
  \<^verbatim>\<open>_notification_handler\<close>. Nothing in the body can raise on a byte string, so the
  \<^verbatim>\<open>except\<close> branch is never taken.
\<close>

definition notification_handler :: "int list \<Rightarrow> world \<Rightarrow> world" where
  "notification_handler data w =
     (let text = decode_ascii_ignore data in
      if strip text \<noteq> []
      then w\<lparr>responses := responses w @ [text], stdout := stdout w @ [DeviceSaid text]\<rparr>
      else w)"

lemma str_in_sublist: "str_in needle s \<longleftrightarrow> sublist needle s"
  by (induction s) (auto simp: sublist_Cons_right)

lemma all_dropWhile: "(\<forall>x \<in> set (dropWhile P s). P x) \<longleftrightarrow> (\<forall>x \<in> set s. P x)"
  by (induction s) auto

lemma strip_empty_iff: "strip s = [] \<longleftrightarrow> (\<forall>c \<in> set s. isspace c)"
  by (simp add: strip_def dropWhile_eq_Nil_conv all_dropWhile)

lemma decode_code_points:
  "\<forall>b \<in> set data. 0 \<le> b \<and> b < 256 \<Longrightarrow>
   map of_char (decode_ascii_ignore data) = filter (\<lambda>b. b < 128) data"
  by (induction data) (simp_all add: decode_ascii_ignore_def)

text \<open>
  The scan of the waiting loops: \<^verbatim>\<open>for response in self.responses\<close> with
  \<^verbatim>\<open>expected.lower() in response.lower()\<close>.
\<close>

definition log_has :: "string \<Rightarrow> string list \<Rightarrow> bool" where
  "log_has expected rs = list_ex (\<lambda>response. str_in (lower expected) (lower response)) rs"

lemma notification_handler_responses:
  "responses (notification_handler data w) =
     (if \<exists>c \<in> set (decode_ascii_ignore data). \<not> isspace c
      then responses w @ [decode_ascii_ignore data] else responses w)"
  by (simp add: notification_handler_def Let_def strip_empty_iff)

text \<open>
  C10. The handler decodes the payload as ASCII, dropping the bytes of 128 and above (the
  decoded text holds exactly the remaining bytes, in order), and appends the text to the
  notification log exactly when it has a character that is not whitespace. A payload that
  decodes to empty or whitespace-only text leaves the log as it was, so it changes the
  result of no scan of the log.
\<close>

theorem notification_handler_log:
  "responses (notification_handler data w) =
     (if \<exists>c \<in> set (decode_ascii_ignore data). \<not> isspace c
      then responses w @ [decode_ascii_ignore data] else responses w) \<and>
   ((\<forall>b \<in> set data. 0 \<le> b \<and> b < 256) \<longrightarrow>
      map of_char (decode_ascii_ignore data) = filter (\<lambda>b. b < 128) data) \<and>
   ((\<forall>c \<in> set (decode_ascii_ignore data). isspace c) \<longrightarrow>
      responses (notification_handler data w) = responses w \<and>
      log_has expected (responses (notification_handler data w)) = log_has expected (responses w))"
  using decode_code_points [of data]
  by (simp add: notification_handler_responses)

theorem notification_handler_log_witness:
  "responses (notification_handler [32, 79, 75, 200, 10] fresh_world) = ['' OK'' @ [CHR 0x0A]] \<and>
   map of_char (decode_ascii_ignore [32, 79, 75, 200, 10]) = [32, 79, 75, 10 :: int] \<and>
   decode_ascii_ignore [32, 255, 10, 9] = [CHR 0x20, CHR 0x0A, CHR 0x09] \<and>
   responses (notification_handler [32, 255, 10, 9] fresh_world) = [] \<and>
   \<not> log_has ''OK'' (responses (notification_handler [32, 255, 10, 9] fresh_world))"
  using notification_handler_log [of "[32, 79, 75, 200, 10]" fresh_world "''OK''"]
    notification_handler_log [of "[32, 255, 10, 9]" fresh_world "''OK''"]
  by (simp add: decode_ascii_ignore_def char_of_def isspace_def fresh_world_def log_has_def)


section \<open>Device locator\<close>

text \<open>A discovered device: its advertised name, which may be absent, and its address.\<close>

record device =
  dev_name :: "string option"
  dev_address :: string

text \<open>The test of line 205 and the loop of lines 203 to 208 of \<^verbatim>\<open>main\<close>.\<close>

definition name_matches :: "device \<Rightarrow> bool" where
  "name_matches d =
     (case dev_name d of
        None \<Rightarrow> False
      | Some name \<Rightarrow> name \<noteq> [] \<and> str_in ''smart'' (lower name) \<and> str_in ''sketch'' (lower name))"

fun find_smart_sketch :: "device list \<Rightarrow> device option" where
  "find_smart_sketch [] = None"
| "find_smart_sketch (d # ds) = (if name_matches d then Some d else find_smart_sketch ds)"

text \<open>
  The specification's predicate: the name has a substring that reads \<open>smart\<close>, and one that
  reads \<open>sketch\<close>, letter case aside.
\<close>

definition contains_ci :: "string \<Rightarrow> string \<Rightarrow> bool" where
  "contains_ci needle s = (\<exists>m. sublist m s \<and> lower m = lower needle)"

definition spec_matches :: "device \<Rightarrow> bool" where
  "spec_matches d = (\<exists>name. dev_name d = Some name \<and> contains_ci ''smart'' name \<and> contains_ci ''sketch'' name)"

lemma sublist_map_iff:
  "sublist n (map f s) \<longleftrightarrow> (\<exists>m. sublist m s \<and> map f m = n)"
proof
  assume "sublist n (map f s)"
  then obtain ps ss where "map f s = ps @ (n @ ss)"
    by (auto simp: sublist_def)
  then obtain us vs where s: "s = us @ vs" and "n @ ss = map f vs"
    by (auto simp: map_eq_append_conv)
  then obtain m ws where "vs = m @ ws" "map f m = n"
    by (auto simp: append_eq_map_conv)
  with s show "\<exists>m. sublist m s \<and> map f m = n"
    by auto
next
  assume "\<exists>m. sublist m s \<and> map f m = n"
  then obtain m ps ss where "s = ps @ m @ ss" "map f m = n"
    by (auto simp: sublist_def)
  then have "map f s = map f ps @ n @ map f ss"
    by simp
  then show "sublist n (map f s)"
    unfolding sublist_def by blast
qed

lemma lower_literal: "lower ''smart'' = ''smart''" "lower ''sketch'' = ''sketch''"
  by (simp_all add: lower_def ascii_lower_def)

lemma name_matches_spec: "name_matches d \<longleftrightarrow> spec_matches d"
proof -
  have "str_in ''smart'' (lower name) \<longleftrightarrow> contains_ci ''smart'' name"
       "str_in ''sketch'' (lower name) \<longleftrightarrow> contains_ci ''sketch'' name" for name
    by (simp_all add: str_in_sublist contains_ci_def lower_literal)
      (simp_all add: lower_def sublist_map_iff)
  moreover have "\<not> contains_ci ''smart'' []"
    by (auto simp: contains_ci_def lower_def)
  ultimately show ?thesis
    by (auto simp: name_matches_def spec_matches_def split: option.splits)
qed

lemma find_smart_sketch_find: "find_smart_sketch ds = List.find name_matches ds"
  by (induction ds) simp_all

definition sketcher :: device where
  "sketcher = \<lparr>dev_name = Some ''smART_Sketcher2.0'', dev_address = ''AA:BB''\<rparr>"

definition gadget :: device where
  "gadget = \<lparr>dev_name = Some ''OtherGadget'', dev_address = ''CC:DD''\<rparr>"

definition nameless :: device where
  "nameless = \<lparr>dev_name = None, dev_address = ''EE:FF''\<rparr>"

lemma examples_match: "name_matches sketcher" "\<not> name_matches gadget" "\<not> name_matches nameless"
  by (simp_all add: name_matches_def sketcher_def gadget_def nameless_def lower_def
      ascii_lower_def char_of_def)

text \<open>
  C8. The locator returns the first discovered device whose name contains both \<open>smart\<close>
  and \<open>sketch\<close> case-insensitively, and nothing when no device has such a name; the name
  \<open>smART_Sketcher2.0\<close> matches and \<open>OtherGadget\<close> does not.
\<close>

theorem find_smart_sketch_first_match:
  "(case find_smart_sketch ds of
      None \<Rightarrow> \<forall>d \<in> set ds. \<not> spec_matches d
    | Some d \<Rightarrow> \<exists>i < length ds. ds ! i = d \<and> spec_matches d \<and> (\<forall>j < i. \<not> spec_matches (ds ! j))) \<and>
   spec_matches \<lparr>dev_name = Some ''smART_Sketcher2.0'', dev_address = a\<rparr> \<and>
   \<not> spec_matches \<lparr>dev_name = Some ''OtherGadget'', dev_address = a\<rparr>"
proof -
  have "spec_matches \<lparr>dev_name = Some ''smART_Sketcher2.0'', dev_address = a\<rparr>"
       "\<not> spec_matches \<lparr>dev_name = Some ''OtherGadget'', dev_address = a\<rparr>"
    unfolding name_matches_spec [symmetric]
    by (simp_all add: name_matches_def lower_def ascii_lower_def char_of_def)
  moreover have "case find_smart_sketch ds of
      None \<Rightarrow> \<forall>d \<in> set ds. \<not> spec_matches d
    | Some d \<Rightarrow> \<exists>i < length ds. ds ! i = d \<and> spec_matches d \<and> (\<forall>j < i. \<not> spec_matches (ds ! j))"
    by (auto simp: find_smart_sketch_find find_None_iff find_Some_iff
        name_matches_spec [symmetric] split: option.splits)
  ultimately show ?thesis
    by simp
qed

theorem find_smart_sketch_first_match_witness:
  "find_smart_sketch [nameless, gadget, sketcher, gadget, sketcher] = Some sketcher \<and>
   (\<exists>i < length [nameless, gadget, sketcher, gadget, sketcher]. [nameless, gadget, sketcher, gadget, sketcher] ! i = sketcher \<and>
      spec_matches sketcher \<and>
      (\<forall>j < i. \<not> spec_matches ([nameless, gadget, sketcher, gadget, sketcher] ! j))) \<and>
   find_smart_sketch [nameless, gadget] = None \<and>
   \<not> spec_matches nameless \<and> \<not> spec_matches gadget"
proof -
  have 1: "find_smart_sketch [nameless, gadget, sketcher, gadget, sketcher] = Some sketcher"
    and 2: "find_smart_sketch [nameless, gadget] = None"
    by (simp_all add: examples_match)
  from find_smart_sketch_first_match [of "[nameless, gadget, sketcher, gadget, sketcher]" "''AA:BB''"]
  have found: "\<exists>i < length [nameless, gadget, sketcher, gadget, sketcher]. [nameless, gadget, sketcher, gadget, sketcher] ! i = sketcher \<and>
      spec_matches sketcher \<and>
      (\<forall>j < i. \<not> spec_matches ([nameless, gadget, sketcher, gadget, sketcher] ! j))"
    unfolding 1 by simp
  from find_smart_sketch_first_match [of "[nameless, gadget]" "''AA:BB''"]
  have none: "\<not> spec_matches nameless \<and> \<not> spec_matches gadget"
    unfolding 2 by simp
  from 1 2 found none show ?thesis
    by blast
qed



section \<open>Upload session\<close>

subsection \<open>The transport and the event loop\<close>

text \<open>
  The transport library and the event loop are outside the repository. What they do is
  fixed by an environment: the notifications the device sends, each with its arrival time
  in milliseconds and its payload; for each suspension point of the run (an \<^verbatim>\<open>await\<close>),
  counted from 0, the time it takes beyond its minimum; and whether it raises. The clock is
  the event loop's \<^verbatim>\<open>time()\<close>, in whole milliseconds.
\<close>

record env =
  notifications :: "(int \<times> int list) list"
  latency :: "nat \<Rightarrow> nat"
  fails :: "nat \<Rightarrow> bool"

text \<open>The payloads that arrive after \<open>t0\<close> and no later than \<open>t1\<close>, in the order sent.\<close>

definition arrivals :: "env \<Rightarrow> int \<Rightarrow> int \<Rightarrow> int list list" where
  "arrivals env t0 t1 = map snd (filter (\<lambda>(t, data). t0 < t \<and> t \<le> t1) (notifications env))"

text \<open>
  A suspension of at least \<open>d\<close> milliseconds: the clock advances, and while the client is
  subscribed the handler runs on every notification that arrives in the meantime.
\<close>

definition suspend :: "env \<Rightarrow> int \<Rightarrow> world \<Rightarrow> world" where
  "suspend env d w =
     (let t1 = now w + d + int (latency env (tick w));
          w' = (if subscribed w then fold notification_handler (arrivals env (now w) t1) w else w)
      in w'\<lparr>now := t1, tick := tick w + 1\<rparr>)"

text \<open>
  \<^verbatim>\<open>asyncio.sleep\<close> (cancellation raises), and the three client calls
  \<^verbatim>\<open>write_gatt_char\<close>, \<^verbatim>\<open>start_notify\<close>, \<^verbatim>\<open>stop_notify\<close>; a call that raises has no effect on
  the device side.
\<close>

definition sleep :: "env \<Rightarrow> int \<Rightarrow> unit prog" where
  "sleep env ms w =
     (if fails env (tick w) then (Raised CancelledError, suspend env 0 w)
      else (Returned (), suspend env ms w))"

definition write_gatt_char :: "env \<Rightarrow> int list \<Rightarrow> bool \<Rightarrow> unit prog" where
  "write_gatt_char env data response w =
     (if fails env (tick w) then (Raised BleakError, suspend env 0 w)
      else (Returned (), suspend env 0 (w\<lparr>wire := wire w @ [Write data response]\<rparr>)))"

definition start_notify :: "env \<Rightarrow> unit prog" where
  "start_notify env w =
     (if fails env (tick w) then (Raised BleakError, suspend env 0 w)
      else (Returned (), suspend env 0 (w\<lparr>subscribed := True, wire := wire w @ [StartNotify]\<rparr>)))"

definition stop_notify :: "env \<Rightarrow> unit prog" where
  "stop_notify env w =
     (if fails env (tick w) then (Raised BleakError, suspend env 0 w)
      else (Returned (), (suspend env 0 w)\<lparr>subscribed := False, wire := wire w @ [StopNotify]\<rparr>))"

text \<open>\<^verbatim>\<open>bytes([...])\<close> raises unless every element is in \<open>range(256)\<close>.\<close>

definition bytes_of :: "int list \<Rightarrow> error + int list" where
  "bytes_of xs = (if list_all (\<lambda>v. 0 \<le> v \<and> v < 256) xs then Inr xs else Inl ValueError)"

subsection \<open>\<^verbatim>\<open>wait_for_response\<close>\<close>

lemma now_fold_handler: "now (fold notification_handler ds w) = now w"
  by (induction ds arbitrary: w) (simp_all add: notification_handler_def Let_def)

lemma now_suspend: "now (suspend env d w) = now w + d + int (latency env (tick w))"
  by (simp add: suspend_def Let_def)

text \<open>
  The loop of lines 40 to 48, with \<open>start\<close> the clock value read at line 39 and the timeout
  in milliseconds. It ends because every sleep takes at least 100 ms.
\<close>

function wait_loop :: "env \<Rightarrow> string \<Rightarrow> int \<Rightarrow> int \<Rightarrow> bool prog" where
  "wait_loop env expected start timeout w =
     (if now w - start < timeout
      then (if log_has expected (responses w)
            then bnd (stop_notify env) (\<lambda>_. ret True) w
            else (case sleep env 100 w of
                    (Returned _, w') \<Rightarrow> wait_loop env expected start timeout w'
                  | (Raised e, w') \<Rightarrow> (Raised e, w')))
      else bnd (stop_notify env) (\<lambda>_. ret False) w)"
  by pat_completeness auto
termination
  by (relation "measure (\<lambda>(env, expected, start, timeout, w). nat (start + timeout - now w))")
     (auto simp: sleep_def now_suspend split: if_splits)

definition wait_for_response :: "env \<Rightarrow> string \<Rightarrow> int \<Rightarrow> bool prog" where
  "wait_for_response env expected timeout =
     bnd (start_notify env) (\<lambda>_ w.
     wait_loop env expected (now w) timeout w)"

subsection \<open>\<^verbatim>\<open>upload_image\<close>\<close>

text \<open>The loop of lines 142 to 146; \<open>i\<close> is the index of the next chunk, \<open>n\<close> their number.\<close>

fun send_chunks :: "env \<Rightarrow> nat \<Rightarrow> nat \<Rightarrow> int list list \<Rightarrow> unit prog" where
  "send_chunks env i n [] = ret ()"
| "send_chunks env i n (chunk # rest) =
     bnd (if i mod 50 = 0 then print (Progress i n) else ret ()) (\<lambda>_.
     bnd (write_gatt_char env chunk False) (\<lambda>_.
     bnd (sleep env 10) (\<lambda>_.
     send_chunks env (i + 1) n rest)))"

text \<open>The loop of lines 153 to 168, with \<open>start\<close> the clock value read at line 153.\<close>

function await_done :: "env \<Rightarrow> int \<Rightarrow> bool prog" where
  "await_done env start w =
     (if now w - start < 20000
      then (if list_ex (\<lambda>response. str_in ''done'' (lower response)) (responses w)
            then bnd (stop_notify env) (\<lambda>_.
                 bnd (print BlankRule70) (\<lambda>_.
                 bnd (print UploadedOK) (\<lambda>_.
                 bnd (print Rule70) (\<lambda>_.
                 bnd (print CheckProjector) (\<lambda>_.
                 ret True))))) w
            else (case sleep env 100 w of
                    (Returned _, w') \<Rightarrow> await_done env start w'
                  | (Raised e, w') \<Rightarrow> (Raised e, w')))
      else bnd (stop_notify env) (\<lambda>_.
           bnd (print NoDoneWarning) (\<lambda>_.
           bnd (print NoDoneHint) (\<lambda>_.
           ret True))) w)"
  by pat_completeness auto
termination
  by (relation "measure (\<lambda>(env, start, w). nat (start + 20000 - now w))")
     (auto simp: sleep_def now_suspend split: if_splits)

text \<open>
  \<^verbatim>\<open>upload_image\<close> in the four parts its comments mark: lines 110 to 123 (load, convert,
  chunk), 125 to 131 (send the command and wait for OK), 135 to 149 (send all chunks) and
  151 to 168 (wait for completion).
\<close>

definition prepare_upload :: "pil \<Rightarrow> string \<Rightarrow> int \<Rightarrow> int list list prog" where
  "prepare_upload lib image_path chunk_size =
     bnd (print Rule70) (\<lambda>_.
     bnd (print Title) (\<lambda>_.
     bnd (print Rule70) (\<lambda>_.
     bnd (load_and_prepare_image lib image_path DEVICE_WIDTH DEVICE_HEIGHT) (\<lambda>img.
     bnd (lift (rgb_to_rgb565 img)) (\<lambda>rgb565_data.
     bnd (print (Rgb565Bytes (length rgb565_data))) (\<lambda>_.
     bnd (lift (prepare_chunks rgb565_data chunk_size)) (\<lambda>chunks.
     bnd (print (TotalChunks (length chunks))) (\<lambda>_.
     ret chunks))))))))"

definition send_command :: "env \<Rightarrow> int \<Rightarrow> bool prog" where
  "send_command env chunk_size =
     bnd (print SendingCommand) (\<lambda>_.
     bnd (lift (bytes_of [0x01, 0x00, 0x00, 0x00, chunk_size, 0x00, 0x02, 0x00])) (\<lambda>command.
     bnd (write_gatt_char env command False) (\<lambda>_.
     wait_for_response env ''OK'' 10000)))"

definition transfer :: "env \<Rightarrow> int list list \<Rightarrow> unit prog" where
  "transfer env chunks =
     bnd (print DeviceReady) (\<lambda>_.
     bnd (start_notify env) (\<lambda>_.
     bnd (print (UploadingChunks (length chunks))) (\<lambda>_.
     bnd (send_chunks env 0 (length chunks) chunks) (\<lambda>_.
     bnd (print (ProgressComplete (length chunks))) (\<lambda>_.
     print AllChunksSent)))))"

definition wait_for_completion :: "env \<Rightarrow> bool prog" where
  "wait_for_completion env =
     bnd (print WaitingForDevice) (\<lambda>_ w.
     await_done env (now w) w)"

definition upload_image :: "pil \<Rightarrow> env \<Rightarrow> string \<Rightarrow> int \<Rightarrow> bool prog" where
  "upload_image lib env image_path chunk_size =
     bnd (prepare_upload lib image_path chunk_size) (\<lambda>chunks.
     bnd (send_command env chunk_size) (\<lambda>ready.
     if \<not> ready
     then bnd (print FailedOK) (\<lambda>_. ret False)
     else bnd (transfer env chunks) (\<lambda>_.
          wait_for_completion env)))"

subsection \<open>Stepping the loops, and what a suspension changes\<close>

declare wait_loop.simps [simp del] await_done.simps [simp del]

lemma wait_loop_found:
  "now w - start < timeout \<Longrightarrow> log_has expected (responses w) \<Longrightarrow>
   wait_loop env expected start timeout w = bnd (stop_notify env) (\<lambda>_. ret True) w"
  by (subst wait_loop.simps) simp

lemma wait_loop_sleep:
  "now w - start < timeout \<Longrightarrow> \<not> log_has expected (responses w) \<Longrightarrow>
   wait_loop env expected start timeout w =
     (case sleep env 100 w of
        (Returned _, w') \<Rightarrow> wait_loop env expected start timeout w'
      | (Raised e, w') \<Rightarrow> (Raised e, w'))"
  by (subst wait_loop.simps) simp

lemma wait_loop_timeout:
  "\<not> now w - start < timeout \<Longrightarrow>
   wait_loop env expected start timeout w = bnd (stop_notify env) (\<lambda>_. ret False) w"
  by (subst wait_loop.simps) simp

lemma await_done_found:
  "now w - start < 20000 \<Longrightarrow>
   list_ex (\<lambda>response. str_in ''done'' (lower response)) (responses w) \<Longrightarrow>
   await_done env start w =
     bnd (stop_notify env) (\<lambda>_.
     bnd (print BlankRule70) (\<lambda>_.
     bnd (print UploadedOK) (\<lambda>_.
     bnd (print Rule70) (\<lambda>_.
     bnd (print CheckProjector) (\<lambda>_.
     ret True))))) w"
  by (subst await_done.simps) simp

lemma await_done_sleep:
  "now w - start < 20000 \<Longrightarrow>
   \<not> list_ex (\<lambda>response. str_in ''done'' (lower response)) (responses w) \<Longrightarrow>
   await_done env start w =
     (case sleep env 100 w of
        (Returned _, w') \<Rightarrow> await_done env start w'
      | (Raised e, w') \<Rightarrow> (Raised e, w'))"
  by (subst await_done.simps) simp

lemma await_done_timeout:
  "\<not> now w - start < 20000 \<Longrightarrow>
   await_done env start w =
     bnd (stop_notify env) (\<lambda>_.
     bnd (print NoDoneWarning) (\<lambda>_.
     bnd (print NoDoneHint) (\<lambda>_.
     ret True))) w"
  by (subst await_done.simps) simp

text \<open>The texts the handler keeps out of a list of payloads.\<close>

definition heard :: "int list list \<Rightarrow> string list" where
  "heard ds = filter (\<lambda>text. strip text \<noteq> []) (map decode_ascii_ignore ds)"

lemma fold_notification_handler:
  "fold notification_handler ds w =
     w\<lparr>responses := responses w @ heard ds, stdout := stdout w @ map DeviceSaid (heard ds)\<rparr>"
  by (induction ds arbitrary: w) (simp_all add: heard_def notification_handler_def Let_def)

lemma suspend_fields:
  "wire (suspend env d w) = wire w"
  "subscribed (suspend env d w) = subscribed w"
  "tick (suspend env d w) = Suc (tick w)"
  "responses (suspend env d w) =
     responses w @ (if subscribed w
                    then heard (arrivals env (now w) (now w + d + int (latency env (tick w))))
                    else [])"
  "stdout (suspend env d w) =
     stdout w @ (if subscribed w
                 then map DeviceSaid (heard (arrivals env (now w) (now w + d + int (latency env (tick w)))))
                 else [])"
  by (simp_all add: suspend_def Let_def fold_notification_handler)

subsection \<open>The subscription at the end of a session\<close>

text \<open>The subscription is released: the last call on the client was \<^verbatim>\<open>stop_notify\<close>.\<close>

definition released :: "world \<Rightarrow> bool" where
  "released w = (\<not> subscribed w \<and> (\<exists>as. wire w = as @ [StopNotify]))"

lemma stop_notify_released:
  "stop_notify env w = (Returned x, w') \<Longrightarrow> released w'"
  by (auto simp: stop_notify_def released_def suspend_fields split: if_splits)

lemma print_released: "released w \<Longrightarrow> released (snd (print l w))"
  by (simp add: print_def released_def)

lemma wait_loop_released:
  "wait_loop env expected start timeout w = (Returned b, w') \<Longrightarrow> released w'"
proof (induction env expected start timeout w rule: wait_loop.induct)
  case (1 env expected start timeout w)
  show ?case
  proof (cases "now w - start < timeout \<and> \<not> log_has expected (responses w)")
    case True
    with "1.prems" obtain u w1 where s: "sleep env 100 w = (Returned u, w1)"
      and "wait_loop env expected start timeout w1 = (Returned b, w')"
      by (subst (asm) wait_loop.simps) (auto split: prod.splits outcome.splits)
    with True "1.IH" show ?thesis
      by (cases u) auto
  next
    case False
    with "1.prems" obtain u where "stop_notify env w = (Returned u, w')"
      by (subst (asm) wait_loop.simps)
         (auto simp: bnd_def ret_def split: prod.splits outcome.splits if_splits)
    then show ?thesis
      by (rule stop_notify_released)
  qed
qed

lemma await_done_released:
  "await_done env start w = (Returned b, w') \<Longrightarrow> released w'"
proof (induction env start w rule: await_done.induct)
  case (1 env start w)
  let ?found = "list_ex (\<lambda>response. str_in ''done'' (lower response)) (responses w)"
  show ?case
  proof (cases "now w - start < 20000 \<and> \<not> ?found")
    case True
    with "1.prems" obtain u w1 where s: "sleep env 100 w = (Returned u, w1)"
      and "await_done env start w1 = (Returned b, w')"
      by (subst (asm) await_done.simps) (auto split: prod.splits outcome.splits)
    with True "1.IH" show ?thesis
      by (cases u) auto
  next
    case False
    with "1.prems" obtain u w1 where st: "stop_notify env w = (Returned u, w1)"
      and "released w1 \<longrightarrow> released w'"
      by (subst (asm) await_done.simps)
         (auto simp: bnd_def ret_def print_def released_def
               split: prod.splits outcome.splits if_splits)
    with stop_notify_released [OF st] show ?thesis
      by simp
  qed
qed

lemma upload_image_released:
  assumes "upload_image lib env image_path chunk_size w = (Returned b, w')"
  shows "released w'"
proof -
  from assms obtain chunks w1 ready w2 where
    cmd: "send_command env chunk_size w1 = (Returned ready, w2)"
    and rest: "(if \<not> ready then bnd (print FailedOK) (\<lambda>_. ret False)
                else bnd (transfer env chunks) (\<lambda>_. wait_for_completion env)) w2 = (Returned b, w')"
    by (auto simp: upload_image_def bnd_def split: prod.splits outcome.splits)
  show ?thesis
  proof (cases ready)
    case False
    from cmd obtain w0 where "wait_loop env ''OK'' (now w0) 10000 w0 = (Returned ready, w2)"
      by (auto simp: send_command_def wait_for_response_def bnd_def
          split: prod.splits outcome.splits)
    then have "released w2"
      by (rule wait_loop_released)
    with rest False show ?thesis
      by (auto simp: bnd_def ret_def print_def released_def)
  next
    case True
    with rest obtain w3 where "await_done env (now w3) w3 = (Returned b, w')"
      by (auto simp: wait_for_completion_def bnd_def split: prod.splits outcome.splits)
    then show ?thesis
      by (rule await_done_released)
  qed
qed

subsection \<open>Concrete runs\<close>

text \<open>The stand-in imaging library gives a 160 by 120 image, 38400 bytes and 480 chunks.\<close>

definition demo_img :: image where
  "demo_img = demo_resize (demo_convert demo_grey ''RGB'') (160, 120)"

definition demo_chunks :: "int list list" where
  "demo_chunks = (case prepare_chunks (spec_row_major demo_img) 80 of Inr cs \<Rightarrow> cs | Inl _ \<Rightarrow> [])"

definition demo_ready :: world where
  "demo_ready = fresh_world\<lparr>stdout :=
     [Rule70, Title, Rule70, LoadingImage ''sketch.png'', OriginalSize (2, 1),
      ConvertingToRGB ''L'', ResizingTo 160 120, Rgb565Bytes 38400, TotalChunks 480]\<rparr>"

lemma prepare_chunks_count:
  assumes "1 \<le> chunk_size"
  shows "\<exists>chunks. prepare_chunks data chunk_size = Inr chunks \<and>
           length chunks = (length data + nat chunk_size - 1) div nat chunk_size"
  using assms
  by (simp add: prepare_chunks_eq range_from_multiples)

lemma demo_img_rgb8: "rgb8_image demo_img" "img_size demo_img = (160, 120)"
  using load_and_prepare_image_result [OF demo_pil_contract demo_load]
  by (simp_all add: demo_img_def image_ok_def DEVICE_WIDTH_def DEVICE_HEIGHT_def)

lemma demo_data: "rgb_to_rgb565 demo_img = Inr (spec_row_major demo_img)"
  "length (spec_row_major demo_img) = 38400"
  using demo_img_rgb8 by (simp_all add: rgb_to_rgb565_rgb8 length_spec_row_major)

lemma demo_chunks: "prepare_chunks (spec_row_major demo_img) 80 = Inr demo_chunks"
  "length demo_chunks = 480"
  using prepare_chunks_count [of 80 "spec_row_major demo_img"]
  by (auto simp: demo_chunks_def demo_data)

lemma demo_prepare:
  "prepare_upload demo_pil ''sketch.png'' 80 fresh_world = (Returned demo_chunks, demo_ready)"
proof -
  have "load_and_prepare_image demo_pil ''sketch.png'' DEVICE_WIDTH DEVICE_HEIGHT
      (fresh_world\<lparr>stdout := [Rule70, Title, Rule70]\<rparr>) =
     (Returned demo_img,
      fresh_world\<lparr>stdout := [Rule70, Title, Rule70, LoadingImage ''sketch.png'',
        OriginalSize (2, 1), ConvertingToRGB ''L'', ResizingTo 160 120]\<rparr>)"
    by (simp add: load_and_prepare_image_def bnd_def print_def lift_def ret_def demo_pil_def
        demo_grey_def demo_convert_def fresh_world_def DEVICE_WIDTH_def DEVICE_HEIGHT_def
        demo_img_def)
  then show ?thesis
    by (simp add: prepare_upload_def bnd_def print_def lift_def ret_def demo_data demo_chunks
        demo_ready_def fresh_world_def)
qed

text \<open>
  The device answers OK at 5 ms, while the subscription call (10 ms) is under way; the
  fifth suspension of the run, the write of the first chunk, raises.
\<close>

definition leaky_env :: env where
  "leaky_env = \<lparr>notifications = [(5, [79, 75])],
                 latency = (\<lambda>k. if k = 1 then 10 else 0),
                 fails = (\<lambda>k. k = 4)\<rparr>"

definition leaky_mid :: world where
  "leaky_mid =
     \<lparr>responses = [''OK''], subscribed = False,
      wire = [Write [1, 0, 0, 0, 80, 0, 2, 0] False, StartNotify, StopNotify],
      now = 10, tick = 3,
      stdout = [Rule70, Title, Rule70, LoadingImage ''sketch.png'', OriginalSize (2, 1),
                ConvertingToRGB ''L'', ResizingTo 160 120, Rgb565Bytes 38400, TotalChunks 480,
                SendingCommand, DeviceSaid ''OK'']\<rparr>"

lemma leaky_ready: "send_command leaky_env 80 demo_ready = (Returned True, leaky_mid)"
  by (simp add: send_command_def wait_for_response_def bnd_def print_def lift_def ret_def
      bytes_of_def write_gatt_char_def start_notify_def stop_notify_def
      wait_loop_found wait_loop_sleep wait_loop_timeout
      suspend_def arrivals_def fold_notification_handler heard_def
      leaky_env_def demo_ready_def fresh_world_def leaky_mid_def log_has_def lower_def
      ascii_lower_def decode_ascii_ignore_def char_of_def strip_def isspace_def Let_def)

lemma leaky_transfer:
  assumes "chunks \<noteq> []"
  shows "transfer leaky_env chunks leaky_mid =
     (Raised BleakError,
      leaky_mid\<lparr>subscribed := True,
                 wire := [Write [1, 0, 0, 0, 80, 0, 2, 0] False, StartNotify, StopNotify, StartNotify],
                 tick := 5,
                 stdout := stdout leaky_mid @
                   [DeviceReady, UploadingChunks (length chunks), Progress 0 (length chunks)]\<rparr>)"
proof -
  from assms obtain c rest where "chunks = c # rest"
    by (cases chunks) auto
  then show ?thesis
    by (simp add: transfer_def bnd_def print_def ret_def start_notify_def write_gatt_char_def
        leaky_env_def leaky_mid_def suspend_def arrivals_def fold_notification_handler
        heard_def Let_def)
qed

text \<open>
  C7, as stated, fails: when the write of a chunk raises, the exception leaves
  \<^verbatim>\<open>upload_image\<close> with the subscription of line 138 still active.
\<close>

theorem subscription_leak_counterexample:
  "fst (upload_image demo_pil leaky_env ''sketch.png'' 80 fresh_world) = Raised BleakError \<and>
   subscribed (snd (upload_image demo_pil leaky_env ''sketch.png'' 80 fresh_world)) \<and>
   wire (snd (upload_image demo_pil leaky_env ''sketch.png'' 80 fresh_world)) =
     [Write [1, 0, 0, 0, 80, 0, 2, 0] False, StartNotify, StopNotify, StartNotify]"
proof -
  have "demo_chunks \<noteq> []"
    using demo_chunks(2) by auto
  then have "upload_image demo_pil leaky_env ''sketch.png'' 80 fresh_world =
      (Raised BleakError, snd (transfer leaky_env demo_chunks leaky_mid))"
    by (simp add: upload_image_def bnd_def demo_prepare leaky_ready leaky_transfer)
  with \<open>demo_chunks \<noteq> []\<close> show ?thesis
    by (simp add: leaky_transfer)
qed

text \<open>A silent device, and a first sleep that overruns the ready timeout.\<close>

definition slow_env :: env where
  "slow_env = \<lparr>notifications = [], latency = (\<lambda>k. if k = 2 then 10000 else 0),
                fails = (\<lambda>k. False)\<rparr>"

definition slow_end :: world where
  "slow_end =
     \<lparr>responses = [], subscribed = False,
      wire = [Write [1, 0, 0, 0, 80, 0, 2, 0] False, StartNotify, StopNotify],
      now = 10100, tick = 4,
      stdout = [Rule70, Title, Rule70, LoadingImage ''sketch.png'', OriginalSize (2, 1),
                ConvertingToRGB ''L'', ResizingTo 160 120, Rgb565Bytes 38400, TotalChunks 480,
                SendingCommand, FailedOK]\<rparr>"

lemma slow_ready:
  "send_command slow_env 80 demo_ready =
     (Returned False,
      \<lparr>responses = [], subscribed = False,
       wire = [Write [1, 0, 0, 0, 80, 0, 2, 0] False, StartNotify, StopNotify],
       now = 10100, tick = 4,
       stdout = [Rule70, Title, Rule70, LoadingImage ''sketch.png'', OriginalSize (2, 1),
                 ConvertingToRGB ''L'', ResizingTo 160 120, Rgb565Bytes 38400, TotalChunks 480,
                 SendingCommand]\<rparr>)"
  by (simp add: send_command_def wait_for_response_def bnd_def print_def lift_def ret_def
      bytes_of_def write_gatt_char_def start_notify_def stop_notify_def sleep_def
      wait_loop_found wait_loop_sleep wait_loop_timeout
      suspend_def arrivals_def fold_notification_handler heard_def
      slow_env_def demo_ready_def fresh_world_def log_has_def Let_def)

lemma slow_run:
  "upload_image demo_pil slow_env ''sketch.png'' 80 fresh_world = (Returned False, slow_end)"
  by (simp add: upload_image_def bnd_def demo_prepare slow_ready print_def ret_def slow_end_def)

text \<open>
  C7, amended. On every path on which \<^verbatim>\<open>upload_image\<close> returns (confirmed success, the
  hard ready-timeout failure, the soft completion timeout) the subscription has been
  released: the client is not subscribed and its last call was \<^verbatim>\<open>stop_notify\<close>.
\<close>

theorem upload_image_returns_released:
  "upload_image lib env image_path chunk_size w = (Returned b, w') \<Longrightarrow>
   \<not> subscribed w' \<and> (\<exists>as. wire w' = as @ [StopNotify])"
  using upload_image_released [of lib env image_path chunk_size w b w']
  by (simp add: released_def)

theorem upload_image_returns_released_witness:
  "upload_image demo_pil slow_env ''sketch.png'' 80 fresh_world = (Returned False, slow_end) \<and>
   \<not> subscribed slow_end \<and>
   wire slow_end = [Write [1, 0, 0, 0, 80, 0, 2, 0] False, StartNotify] @ [StopNotify]"
  using upload_image_returns_released [OF slow_run] slow_run
  by (simp add: slow_end_def)

subsection \<open>What reaches the device first\<close>

text \<open>A program that only appends to the record of client calls.\<close>

definition grows :: "'a prog \<Rightarrow> bool" where
  "grows m = (\<forall>w. prefix (wire w) (wire (snd (m w))))"

lemma grows_ret: "grows (ret x)"
  by (simp add: grows_def ret_def)

lemma grows_print: "grows (print l)"
  by (simp add: grows_def print_def)

lemma grows_lift: "grows (lift r)"
  by (simp add: grows_def lift_def split: sum.splits)

lemma grows_bnd:
  assumes "grows m" "\<And>x. grows (f x)"
  shows "grows (bnd m f)"
  unfolding grows_def
proof
  fix w
  obtain r w1 where m: "m w = (r, w1)"
    by (cases "m w")
  with assms(1) have 1: "prefix (wire w) (wire w1)"
    by (auto simp: grows_def dest: spec [of _ w])
  show "prefix (wire w) (wire (snd (bnd m f w)))"
  proof (cases r)
    case (Returned x)
    from assms(2) [of x] have "prefix (wire w1) (wire (snd (f x w1)))"
      by (simp add: grows_def)
    with 1 m Returned show ?thesis
      by (auto simp: bnd_def intro: prefix_order.trans)
  next
    case (Raised e)
    with 1 m show ?thesis
      by (simp add: bnd_def)
  qed
qed

lemma grows_if: "grows a \<Longrightarrow> grows b \<Longrightarrow> grows (if c then a else b)"
  by simp

lemma grows_client:
  "grows (sleep env ms)" "grows (write_gatt_char env d r)"
  "grows (start_notify env)" "grows (stop_notify env)"
  by (simp_all add: grows_def sleep_def write_gatt_char_def start_notify_def stop_notify_def
      suspend_fields)

lemma grows_wait_loop: "grows (wait_loop env expected start timeout)"
  unfolding grows_def
proof
  fix w
  show "prefix (wire w) (wire (snd (wait_loop env expected start timeout w)))"
  proof (induction env expected start timeout w rule: wait_loop.induct)
    case (1 env expected start timeout w)
    have stop: "prefix (wire w) (wire (snd (bnd (stop_notify env) (\<lambda>_. ret b) w)))" for b
      using grows_bnd [OF grows_client(4) grows_ret, of env "\<lambda>_. b"]
      by (simp add: grows_def)
    show ?case
    proof (cases "now w - start < timeout \<and> \<not> log_has expected (responses w)")
      case True
      obtain r w1 where s: "sleep env 100 w = (r, w1)"
        by (cases "sleep env 100 w")
      with grows_client(1) [of env 100] have "prefix (wire w) (wire w1)"
        by (auto simp: grows_def dest: spec [of _ w])
      with True s "1.IH" show ?thesis
        by (cases r) (auto simp: wait_loop_sleep intro: prefix_order.trans)
    next
      case False
      with stop show ?thesis
        by (cases "now w - start < timeout") (simp_all add: wait_loop_found wait_loop_timeout)
    qed
  qed
qed

lemma grows_await_done: "grows (await_done env start)"
  unfolding grows_def
proof
  fix w
  show "prefix (wire w) (wire (snd (await_done env start w)))"
  proof (induction env start w rule: await_done.induct)
    case (1 env start w)
    let ?found = "list_ex (\<lambda>response. str_in ''done'' (lower response)) (responses w)"
    have stop1: "grows (bnd (stop_notify env) (\<lambda>_.
                 bnd (print BlankRule70) (\<lambda>_.
                 bnd (print UploadedOK) (\<lambda>_.
                 bnd (print Rule70) (\<lambda>_.
                 bnd (print CheckProjector) (\<lambda>_.
                 ret True))))))"
      and stop2: "grows (bnd (stop_notify env) (\<lambda>_.
           bnd (print NoDoneWarning) (\<lambda>_.
           bnd (print NoDoneHint) (\<lambda>_.
           ret True))))"
      by (intro grows_bnd grows_client grows_print grows_ret)+
    show ?case
    proof (cases "now w - start < 20000 \<and> \<not> ?found")
      case True
      obtain r w1 where s: "sleep env 100 w = (r, w1)"
        by (cases "sleep env 100 w")
      with grows_client(1) [of env 100] have "prefix (wire w) (wire w1)"
        by (auto simp: grows_def dest: spec [of _ w])
      with True s "1.IH" show ?thesis
        by (cases r) (auto simp: await_done_sleep intro: prefix_order.trans)
    next
      case False
      with stop1 stop2 show ?thesis
        by (cases "now w - start < 20000")
           (simp_all add: await_done_found await_done_timeout grows_def)
    qed
  qed
qed

lemma grows_send_chunks: "grows (send_chunks env i n chunks)"
proof (induction chunks arbitrary: i)
  case Nil
  show ?case
    by (simp add: grows_ret)
next
  case (Cons chunk rest)
  show ?case
    unfolding send_chunks.simps
    by (intro grows_bnd grows_if grows_client grows_print grows_ret Cons.IH)
qed

lemma grows_wait_for_response: "grows (wait_for_response env expected timeout)"
proof -
  have "grows (\<lambda>w. wait_loop env expected (now w) timeout w)"
    using grows_wait_loop by (simp add: grows_def)
  then show ?thesis
    unfolding wait_for_response_def by (intro grows_bnd grows_client)
qed

lemma grows_wait_for_completion: "grows (wait_for_completion env)"
proof -
  have "grows (\<lambda>w. await_done env (now w) w)"
    using grows_await_done by (simp add: grows_def)
  then show ?thesis
    unfolding wait_for_completion_def by (intro grows_bnd grows_print)
qed

lemma grows_transfer: "grows (transfer env chunks)"
  unfolding transfer_def
  by (intro grows_bnd grows_client grows_print grows_send_chunks)

text \<open>The first part of \<^verbatim>\<open>upload_image\<close> prints and does nothing else.\<close>

definition only_prints :: "'a prog \<Rightarrow> bool" where
  "only_prints m = (\<forall>w. \<exists>out. snd (m w) = w\<lparr>stdout := stdout w @ out\<rparr>)"

lemma only_prints_ret: "only_prints (ret x)"
  by (auto simp: only_prints_def ret_def intro: exI [of _ "[]"])

lemma only_prints_print: "only_prints (print l)"
  by (auto simp: only_prints_def print_def)

lemma only_prints_lift: "only_prints (lift r)"
  by (auto simp: only_prints_def lift_def intro: exI [of _ "[]"] split: sum.splits)

lemma only_prints_bnd:
  assumes "only_prints m" "\<And>x. only_prints (f x)"
  shows "only_prints (bnd m f)"
  unfolding only_prints_def
proof
  fix w
  obtain r w1 where m: "m w = (r, w1)"
    by (cases "m w")
  with assms(1) obtain out where 1: "w1 = w\<lparr>stdout := stdout w @ out\<rparr>"
    by (auto simp: only_prints_def dest: spec [of _ w])
  show "\<exists>out. snd (bnd m f w) = w\<lparr>stdout := stdout w @ out\<rparr>"
  proof (cases r)
    case (Returned x)
    from assms(2) [of x] obtain out2 where "snd (f x w1) = w1\<lparr>stdout := stdout w1 @ out2\<rparr>"
      by (auto simp: only_prints_def)
    with 1 m Returned show ?thesis
      by (auto simp: bnd_def intro: exI [of _ "out @ out2"])
  next
    case (Raised e)
    with 1 m show ?thesis
      by (auto simp: bnd_def)
  qed
qed

lemma only_prints_if: "only_prints a \<Longrightarrow> only_prints b \<Longrightarrow> only_prints (if c then a else b)"
  by simp

lemma only_prints_load: "only_prints (load_and_prepare_image lib p tw th)"
  unfolding load_and_prepare_image_def
  by (intro only_prints_bnd only_prints_if only_prints_print only_prints_lift only_prints_ret)

lemma only_prints_prepare: "only_prints (prepare_upload lib p cs)"
  unfolding prepare_upload_def
  by (intro only_prints_bnd only_prints_print only_prints_lift only_prints_ret only_prints_load)

lemma prepare_upload_fields:
  assumes "prepare_upload lib p cs w = (r, w1)"
  shows "wire w1 = wire w" "responses w1 = responses w" "subscribed w1 = subscribed w"
    "now w1 = now w" "tick w1 = tick w"
proof -
  from only_prints_prepare [of lib p cs] assms obtain out
    where "w1 = w\<lparr>stdout := stdout w @ out\<rparr>"
    by (auto simp: only_prints_def dest: spec [of _ w])
  then show "wire w1 = wire w" "responses w1 = responses w" "subscribed w1 = subscribed w"
    "now w1 = now w" "tick w1 = tick w"
    by simp_all
qed

text \<open>The command frame of line 127.\<close>

definition command_frame :: "int \<Rightarrow> int list" where
  "command_frame chunk_size = [0x01, 0x00, 0x00, 0x00, chunk_size, 0x00, 0x02, 0x00]"

lemma send_command_wire:
  assumes "send_command env chunk_size w = (r, w2)"
  shows "(\<exists>e. r = Raised e \<and> wire w2 = wire w) \<or>
         (0 \<le> chunk_size \<and> chunk_size < 256 \<and>
          prefix (wire w @ [Write (command_frame chunk_size) False]) (wire w2))"
proof (cases "0 \<le> chunk_size \<and> chunk_size < 256 \<and> \<not> fails env (tick w)")
  case False
  with assms show ?thesis
    by (auto simp: send_command_def bnd_def print_def lift_def bytes_of_def
        write_gatt_char_def suspend_fields split: if_splits)
next
  case True
  define w1 where "w1 = suspend env 0 (w\<lparr>stdout := stdout w @ [SendingCommand],
      wire := wire w @ [Write (command_frame chunk_size) False]\<rparr>)"
  from True assms have "wait_for_response env ''OK'' 10000 w1 = (r, w2)"
    by (simp add: send_command_def bnd_def print_def lift_def bytes_of_def
        write_gatt_char_def w1_def command_frame_def)
  with grows_wait_for_response [of env "''OK''" 10000] have "prefix (wire w1) (wire w2)"
    by (auto simp: grows_def dest: spec [of _ w1])
  with True show ?thesis
    by (simp add: w1_def suspend_fields)
qed

lemma upload_image_wire:
  assumes "upload_image lib env image_path chunk_size w = (r, w')"
  shows "wire w' = wire w \<or>
         (0 \<le> chunk_size \<and> chunk_size < 256 \<and>
          prefix (wire w @ [Write (command_frame chunk_size) False]) (wire w'))"
proof -
  obtain r1 w1 where p: "prepare_upload lib image_path chunk_size w = (r1, w1)"
    by (cases "prepare_upload lib image_path chunk_size w")
  then have w1: "wire w1 = wire w"
    by (rule prepare_upload_fields)
  show ?thesis
  proof (cases r1)
    case (Raised e)
    with p assms w1 show ?thesis
      by (simp add: upload_image_def bnd_def)
  next
    case (Returned chunks)
    obtain r2 w2 where c: "send_command env chunk_size w1 = (r2, w2)"
      by (cases "send_command env chunk_size w1")
    note sent = send_command_wire [OF c]
    show ?thesis
    proof (cases r2)
      case (Raised e)
      with p c Returned assms have "w' = w2"
        by (simp add: upload_image_def bnd_def)
      with sent w1 show ?thesis
        by auto
    next
      case ready: (Returned ready)
      let ?rest = "if \<not> ready then bnd (print FailedOK) (\<lambda>_. ret False)
        else bnd (transfer env chunks) (\<lambda>_. wait_for_completion env)"
      have "grows ?rest"
        by (intro grows_if grows_bnd grows_print grows_ret grows_transfer
            grows_wait_for_completion)
      moreover from p c Returned ready assms have "?rest w2 = (r, w')"
        by (simp add: upload_image_def bnd_def)
      ultimately have "prefix (wire w2) (wire w')"
        by (auto simp: grows_def dest: spec [of _ w2])
      with sent ready w1 show ?thesis
        by (auto intro: prefix_order.trans)
    qed
  qed
qed

lemma upload_image_first_write:
  assumes "prepare_upload lib image_path chunk_size w = (Returned chunks, w1)"
    and "0 \<le> chunk_size" "chunk_size < 256" "\<not> fails env (tick w)"
    and "upload_image lib env image_path chunk_size w = (r, w')"
  shows "prefix (wire w @ [Write (command_frame chunk_size) False]) (wire w')"
proof -
  obtain r2 w2 where c: "send_command env chunk_size w1 = (r2, w2)"
    by (cases "send_command env chunk_size w1")
  define wa where "wa = suspend env 0 (w1\<lparr>stdout := stdout w1 @ [SendingCommand],
      wire := wire w1 @ [Write (command_frame chunk_size) False]\<rparr>)"
  from assms(1) have t: "tick w1 = tick w" "wire w1 = wire w"
    by (rule prepare_upload_fields)+
  with assms(2-4) c have "wait_for_response env ''OK'' 10000 wa = (r2, w2)"
    by (simp add: send_command_def bnd_def print_def lift_def bytes_of_def
        write_gatt_char_def wa_def command_frame_def)
  with grows_wait_for_response [of env "''OK''" 10000] have "prefix (wire wa) (wire w2)"
    by (auto simp: grows_def dest: spec [of _ wa])
  then have sent: "prefix (wire w @ [Write (command_frame chunk_size) False]) (wire w2)"
    by (simp add: wa_def suspend_fields t)
  show ?thesis
  proof (cases r2)
    case (Raised e)
    with assms(1,5) c have "w' = w2"
      by (simp add: upload_image_def bnd_def)
    with sent show ?thesis
      by simp
  next
    case ready: (Returned ready)
    let ?rest = "if \<not> ready then bnd (print FailedOK) (\<lambda>_. ret False)
      else bnd (transfer env chunks) (\<lambda>_. wait_for_completion env)"
    have "grows ?rest"
      by (intro grows_if grows_bnd grows_print grows_ret grows_transfer
          grows_wait_for_completion)
    moreover from assms(1,5) c ready have "?rest w2 = (r, w')"
      by (simp add: upload_image_def bnd_def)
    ultimately have "prefix (wire w2) (wire w')"
      by (auto simp: grows_def dest: spec [of _ w2])
    with sent show ?thesis
      by (auto intro: prefix_order.trans)
  qed
qed

lemma prepare_chunks_full:
  assumes "1 \<le> chunk_size" "nat chunk_size dvd length data"
  shows "\<exists>chunks. prepare_chunks data chunk_size = Inr chunks \<and>
           length chunks = length data div nat chunk_size \<and>
           (\<forall>c \<in> set chunks. length c = nat chunk_size)"
proof -
  define c where "c = nat chunk_size"
  from assms have c: "0 < c"
    by (simp add: c_def)
  from assms(2) obtain m where m: "length data = c * m"
    by (auto simp: c_def)
  have cnt: "(length data + c - 1) div c = m"
    unfolding m using c by (intro div_nat_eqI) simp_all
  have len: "length (take c (drop (k * c) (rev data))) = c" if "k < m" for k
  proof -
    from that have "Suc k * c \<le> m * c"
      by (intro mult_le_mono1) simp
    then show ?thesis
      by (simp add: m mult.commute)
  qed
  define chunks where "chunks = map (\<lambda>k. take c (drop (k * c) (rev data))) [0..<m]"
  have "prepare_chunks data chunk_size = Inr chunks"
    using c cnt
    by (simp add: prepare_chunks_eq [OF assms(1)] range_from_multiples c_def [symmetric]
        chunks_def comp_def)
  moreover have "length chunks = length data div c"
    using c by (simp add: chunks_def m)
  moreover have "\<forall>x \<in> set chunks. length x = c"
    using len by (auto simp: chunks_def)
  ultimately show ?thesis
    unfolding c_def by blast
qed


text \<open>
  C4. In every upload session the first call that reaches the device is the write of the
  8-byte command frame \<open>[0x01, 0x00, 0x00, 0x00, chunk_size, 0x00, 0x02, 0x00]\<close>, made
  without asking for a write acknowledgement; it is made whenever the image was prepared,
  the chunk size fits a byte and the transport accepts the write. With the chunk size 80
  the fifth byte is \<open>0x50\<close>, and a buffer of 38400 bytes gives 480 chunks of 80 bytes.
\<close>

theorem command_frame_first:
  assumes "upload_image lib env image_path chunk_size w = (r, w')" and "wire w = []"
  shows "(wire w' = [] \<or>
          (\<exists>rest. wire w' =
             Write [0x01, 0x00, 0x00, 0x00, chunk_size, 0x00, 0x02, 0x00] False # rest \<and>
             0 \<le> chunk_size \<and> chunk_size < 256)) \<and>
         ((\<exists>chunks w1. prepare_upload lib image_path chunk_size w = (Returned chunks, w1)) \<and>
          0 \<le> chunk_size \<and> chunk_size < 256 \<and> \<not> fails env (tick w) \<longrightarrow> wire w' \<noteq> []) \<and>
         command_frame 80 ! 4 = 0x50 \<and>
         (\<forall>data. length data = 38400 \<longrightarrow>
            (\<exists>chunks. prepare_chunks data 80 = Inr chunks \<and> length chunks = 480 \<and>
               (\<forall>c \<in> set chunks. length c = 80)))"
proof -
  have first: "wire w' = [] \<or>
      (\<exists>rest. wire w' =
         Write [0x01, 0x00, 0x00, 0x00, chunk_size, 0x00, 0x02, 0x00] False # rest \<and>
         0 \<le> chunk_size \<and> chunk_size < 256)"
    using upload_image_wire [OF assms(1)] assms(2)
    by (auto simp: command_frame_def prefix_def)
  have made: "wire w' \<noteq> []"
    if "\<exists>chunks w1. prepare_upload lib image_path chunk_size w = (Returned chunks, w1)"
      "0 \<le> chunk_size" "chunk_size < 256" "\<not> fails env (tick w)"
  proof -
    from that(1) obtain chunks w1
      where "prepare_upload lib image_path chunk_size w = (Returned chunks, w1)"
      by blast
    from upload_image_first_write [OF this that(2-4) assms(1)] show ?thesis
      by (auto simp: prefix_def)
  qed
  have count: "\<exists>chunks. prepare_chunks data 80 = Inr chunks \<and> length chunks = 480 \<and>
      (\<forall>c \<in> set chunks. length c = 80)" if "length data = 38400" for data
    using prepare_chunks_full [of 80 data] that by simp
  have "command_frame 80 ! 4 = 0x50"
    by (simp add: command_frame_def)
  with first made count show ?thesis
    by blast
qed

theorem command_frame_first_witness:
  "upload_image demo_pil slow_env ''sketch.png'' 80 fresh_world = (Returned False, slow_end) \<and>
   wire fresh_world = [] \<and>
   wire slow_end = Write [0x01, 0x00, 0x00, 0x00, 0x50, 0x00, 0x02, 0x00] False #
                     [StartNotify, StopNotify] \<and>
   length (replicate 38400 (0::int)) = 38400 \<and>
   (\<exists>chunks. prepare_chunks (replicate 38400 0) 80 = Inr chunks \<and> length chunks = 480 \<and>
      (\<forall>c \<in> set chunks. length c = 80))"
proof -
  have start: "wire fresh_world = []"
    by (simp add: fresh_world_def)
  have len: "length (replicate 38400 (0::int)) = 38400"
    by simp
  from command_frame_first [OF slow_run start]
  have "\<exists>chunks. prepare_chunks (replicate 38400 0) 80 = Inr chunks \<and> length chunks = 480 \<and>
      (\<forall>c \<in> set chunks. length c = 80)"
    using len by blast
  with slow_run start len show ?thesis
    by (simp add: slow_end_def)
qed

subsection \<open>Where the notification log comes from\<close>

lemma heard_arrivals:
  assumes "text \<in> set (heard (arrivals env t0 t1))"
  shows "\<exists>(t, data) \<in> set (notifications env).
           t0 < t \<and> t \<le> t1 \<and> text = decode_ascii_ignore data \<and> strip text \<noteq> []"
  using assms by (auto simp: heard_def arrivals_def)

lemma arrival_heard:
  assumes "(t, data) \<in> set (notifications env)" "t0 < t" "t \<le> t1"
    "strip (decode_ascii_ignore data) \<noteq> []"
  shows "decode_ascii_ignore data \<in> set (heard (arrivals env t0 t1))"
  using assms by (force simp: heard_def arrivals_def)

text \<open>A program that keeps a property of the world.\<close>

definition keeps :: "(world \<Rightarrow> bool) \<Rightarrow> 'a prog \<Rightarrow> bool" where
  "keeps I m = (\<forall>w. I w \<longrightarrow> I (snd (m w)))"

lemma keepsD: "keeps I m \<Longrightarrow> I w \<Longrightarrow> m w = (r, w') \<Longrightarrow> I w'"
  by (auto simp: keeps_def dest: spec [of _ w])

lemma keeps_ret: "keeps I (ret x)"
  by (simp add: keeps_def ret_def)

lemma keeps_lift: "keeps I (lift r)"
  by (simp add: keeps_def lift_def split: sum.splits)

lemma keeps_bnd:
  assumes "keeps I m" "\<And>x. keeps I (f x)"
  shows "keeps I (bnd m f)"
  unfolding keeps_def
proof (intro allI impI)
  fix w
  assume I: "I w"
  obtain r w1 where m: "m w = (r, w1)"
    by (cases "m w")
  from keepsD [OF assms(1) I m] have 1: "I w1" .
  show "I (snd (bnd m f w))"
  proof (cases r)
    case (Returned x)
    with 1 m assms(2) [of x] show ?thesis
      by (simp add: bnd_def keeps_def)
  next
    case (Raised e)
    with 1 m show ?thesis
      by (simp add: bnd_def)
  qed
qed

lemma keeps_if: "keeps I a \<Longrightarrow> keeps I b \<Longrightarrow> keeps I (if c then a else b)"
  by simp

lemma keeps_wait_loop:
  assumes "keeps I (sleep env 100)" "keeps I (stop_notify env)"
  shows "keeps I (wait_loop env expected start timeout)"
  unfolding keeps_def
proof (intro allI impI)
  fix w
  assume "I w"
  with assms show "I (snd (wait_loop env expected start timeout w))"
  proof (induction env expected start timeout w rule: wait_loop.induct)
    case (1 env expected start timeout w)
    note sl = "1.prems"(1) and st = "1.prems"(2)
    have stop: "I (snd (bnd (stop_notify env) (\<lambda>_. ret b) w))" for b
      using keeps_bnd [OF st keeps_ret, of "\<lambda>_. b"] "1.prems"(3)
      by (simp add: keeps_def)
    show ?case
    proof (cases "now w - start < timeout \<and> \<not> log_has expected (responses w)")
      case True
      obtain r w1 where s: "sleep env 100 w = (r, w1)"
        by (cases "sleep env 100 w")
      from keepsD [OF sl "1.prems"(3) s] have "I w1" .
      with True s "1.IH" sl st show ?thesis
        by (cases r) (auto simp: wait_loop_sleep)
    next
      case False
      with stop show ?thesis
        by (cases "now w - start < timeout") (simp_all add: wait_loop_found wait_loop_timeout)
    qed
  qed
qed

lemma keeps_await_done:
  assumes "keeps I (sleep env 100)" "keeps I (stop_notify env)" "\<And>l. keeps I (print l)"
  shows "keeps I (await_done env start)"
  unfolding keeps_def
proof (intro allI impI)
  fix w
  assume "I w"
  with assms show "I (snd (await_done env start w))"
  proof (induction env start w rule: await_done.induct)
    case (1 env start w)
    note sl = "1.prems"(1) and st = "1.prems"(2) and pr = "1.prems"(3)
    let ?found = "list_ex (\<lambda>response. str_in ''done'' (lower response)) (responses w)"
    have stop1: "keeps I (bnd (stop_notify env) (\<lambda>_.
                 bnd (print BlankRule70) (\<lambda>_.
                 bnd (print UploadedOK) (\<lambda>_.
                 bnd (print Rule70) (\<lambda>_.
                 bnd (print CheckProjector) (\<lambda>_.
                 ret True))))))"
      and stop2: "keeps I (bnd (stop_notify env) (\<lambda>_.
           bnd (print NoDoneWarning) (\<lambda>_.
           bnd (print NoDoneHint) (\<lambda>_.
           ret True))))"
      by (intro keeps_bnd st pr keeps_ret)+
    show ?case
    proof (cases "now w - start < 20000 \<and> \<not> ?found")
      case True
      obtain r w1 where s: "sleep env 100 w = (r, w1)"
        by (cases "sleep env 100 w")
      from keepsD [OF sl "1.prems"(4) s] have "I w1" .
      with True s "1.IH" sl st pr show ?thesis
        by (cases r) (auto simp: await_done_sleep)
    next
      case False
      with stop1 stop2 "1.prems"(4) show ?thesis
        by (cases "now w - start < 20000")
           (simp_all add: await_done_found await_done_timeout keeps_def)
    qed
  qed
qed

lemma keeps_send_chunks:
  assumes "keeps I (sleep env 10)" "\<And>d. keeps I (write_gatt_char env d False)"
    "\<And>l. keeps I (print l)"
  shows "keeps I (send_chunks env i n chunks)"
proof (induction chunks arbitrary: i)
  case Nil
  show ?case
    by (simp add: keeps_ret)
next
  case (Cons chunk rest)
  show ?case
    unfolding send_chunks.simps
    by (intro keeps_bnd keeps_if assms keeps_ret Cons.IH)
qed

text \<open>Every text in the log was in it at the start or is the decoding of a notification.\<close>

definition log_within :: "env \<Rightarrow> string set \<Rightarrow> world \<Rightarrow> bool" where
  "log_within env S w =
     (set (responses w) \<subseteq> S \<union> (\<lambda>(t, data). decode_ascii_ignore data) ` set (notifications env))"

lemma log_within_suspend: "log_within env S w \<Longrightarrow> log_within env S (suspend env d w)"
  by (auto simp: log_within_def suspend_fields dest!: heard_arrivals)

lemma log_within_update:
  "log_within env S (w\<lparr>wire := a\<rparr>) = log_within env S w"
  "log_within env S (w\<lparr>subscribed := b\<rparr>) = log_within env S w"
  "log_within env S (w\<lparr>stdout := c\<rparr>) = log_within env S w"
  by (simp_all add: log_within_def)

lemma keeps_log_client:
  "keeps (log_within env S) (sleep env ms)"
  "keeps (log_within env S) (write_gatt_char env d r)"
  "keeps (log_within env S) (start_notify env)"
  "keeps (log_within env S) (stop_notify env)"
  "keeps (log_within env S) (print l)"
  by (simp_all add: keeps_def sleep_def write_gatt_char_def start_notify_def stop_notify_def
      print_def log_within_suspend log_within_update)

lemma keeps_log_transfer: "keeps (log_within env S) (transfer env chunks)"
  unfolding transfer_def
  by (intro keeps_bnd keeps_log_client keeps_send_chunks)

subsection \<open>A transport that does not raise\<close>

lemma send_chunks_ok:
  assumes "\<forall>k \<ge> tick w. \<not> fails env k"
  shows "\<exists>w'. send_chunks env i n chunks w = (Returned (), w') \<and>
           wire w' = wire w @ map (\<lambda>c. Write c False) chunks \<and>
           tick w' = tick w + 2 * length chunks \<and>
           subscribed w' = subscribed w"
  using assms
proof (induction chunks arbitrary: i w)
  case Nil
  show ?case
    by (simp add: ret_def)
next
  case (Cons chunk rest)
  define wa where "wa = (if i mod 50 = 0 then w\<lparr>stdout := stdout w @ [Progress i n]\<rparr> else w)"
  define wb where "wb = suspend env 0 (wa\<lparr>wire := wire wa @ [Write chunk False]\<rparr>)"
  define wc where "wc = suspend env 10 wb"
  have ta: "tick wa = tick w" "wire wa = wire w" "subscribed wa = subscribed w"
    by (simp_all add: wa_def)
  have tb: "tick wb = Suc (tick w)" "wire wb = wire w @ [Write chunk False]"
    "subscribed wb = subscribed w"
    by (simp_all add: wb_def suspend_fields ta)
  have tc: "tick wc = Suc (Suc (tick w))" "wire wc = wire w @ [Write chunk False]"
    "subscribed wc = subscribed w"
    by (simp_all add: wc_def suspend_fields tb)
  from Cons.prems have f: "\<not> fails env (tick w)" "\<not> fails env (Suc (tick w))"
    by simp_all
  have step: "send_chunks env i n (chunk # rest) w = send_chunks env (i + 1) n rest wc"
    using f
    by (simp add: bnd_def print_def ret_def write_gatt_char_def sleep_def
        wa_def wb_def wc_def suspend_fields)
  from Cons.prems have "\<forall>k \<ge> tick wc. \<not> fails env k"
    by (simp add: tc)
  from Cons.IH [OF this, of "i + 1"] obtain w' where
    "send_chunks env (i + 1) n rest wc = (Returned (), w')"
    "wire w' = wire wc @ map (\<lambda>c. Write c False) rest"
    "tick w' = tick wc + 2 * length rest" "subscribed w' = subscribed wc"
    by blast
  with step tc show ?case
    by simp
qed

lemma transfer_ok:
  assumes "\<forall>k \<ge> tick w. \<not> fails env k"
  shows "\<exists>w'. transfer env chunks w = (Returned (), w') \<and>
           wire w' = wire w @ StartNotify # map (\<lambda>c. Write c False) chunks \<and>
           tick w' = tick w + 1 + 2 * length chunks \<and>
           subscribed w'"
proof -
  define wa where "wa = (suspend env 0 (w\<lparr>stdout := stdout w @ [DeviceReady],
      subscribed := True, wire := wire w @ [StartNotify]\<rparr>))
      \<lparr>stdout := stdout (suspend env 0 (w\<lparr>stdout := stdout w @ [DeviceReady],
      subscribed := True, wire := wire w @ [StartNotify]\<rparr>)) @ [UploadingChunks (length chunks)]\<rparr>"
  have ta: "tick wa = Suc (tick w)" "wire wa = wire w @ [StartNotify]" "subscribed wa"
    by (simp_all add: wa_def suspend_fields)
  from assms have "\<forall>k \<ge> tick wa. \<not> fails env k"
    by (simp add: ta)
  from send_chunks_ok [OF this, of 0 "length chunks" chunks] obtain wb where
    b: "send_chunks env 0 (length chunks) chunks wa = (Returned (), wb)"
    "wire wb = wire wa @ map (\<lambda>c. Write c False) chunks"
    "tick wb = tick wa + 2 * length chunks" "subscribed wb = subscribed wa"
    by blast
  from assms have "\<not> fails env (tick w)"
    by simp
  then have "transfer env chunks w =
      (Returned (), wb\<lparr>stdout := stdout wb @ [ProgressComplete (length chunks), AllChunksSent]\<rparr>)"
    using b(1)
    by (simp add: transfer_def bnd_def print_def start_notify_def wa_def)
  with b ta show ?thesis
    by simp
qed


subsection \<open>The completion wait\<close>

lemma await_done_soft:
  assumes "\<forall>k \<ge> tick w. \<not> fails env k"
    and "now w - start < 20000 \<longrightarrow>
           \<not> list_ex (\<lambda>response. str_in ''done'' (lower response)) (responses w)"
    and "\<forall>(t, data) \<in> set (notifications env).
           now w < t \<and> t < start + 20000 \<longrightarrow> \<not> str_in ''done'' (lower (decode_ascii_ignore data))"
  shows "\<exists>w' out. await_done env start w = (Returned True, w') \<and>
           stdout w' = stdout w @ map DeviceSaid out @ [NoDoneWarning, NoDoneHint]"
  using assms
proof (induction env start w rule: await_done.induct)
  case (1 env start w)
  let ?done = "\<lambda>response. str_in ''done'' (lower response)"
  from "1.prems"(1) have f: "\<not> fails env (tick w)"
    by simp
  show ?case
  proof (cases "now w - start < 20000")
    case True
    with "1.prems"(2) have quiet_log: "\<not> list_ex ?done (responses w)"
      by simp
    define w1 where "w1 = suspend env 100 w"
    define hs where "hs = (if subscribed w
      then heard (arrivals env (now w) (now w + 100 + int (latency env (tick w)))) else [])"
    from f have s: "sleep env 100 w = (Returned (), w1)"
      by (simp add: sleep_def w1_def)
    have n1: "now w1 = now w + 100 + int (latency env (tick w))"
      and r1: "responses w1 = responses w @ hs"
      and o1: "stdout w1 = stdout w @ map DeviceSaid hs"
      by (simp_all add: w1_def hs_def now_suspend suspend_fields)
    from "1.prems"(1) have nf: "\<forall>k \<ge> tick w1. \<not> fails env k"
      by (simp add: w1_def suspend_fields)
    have inv: "now w1 - start < 20000 \<longrightarrow> \<not> list_ex ?done (responses w1)"
    proof
      assume in_time: "now w1 - start < 20000"
      have "\<not> ?done said" if "said \<in> set hs" for said
      proof -
        from that obtain t data where "(t, data) \<in> set (notifications env)"
          "now w < t" "t \<le> now w1" "said = decode_ascii_ignore data"
          by (auto simp: hs_def n1 dest!: heard_arrivals split: if_splits)
        with "1.prems"(3) in_time show ?thesis
          by auto
      qed
      with quiet_log show "\<not> list_ex ?done (responses w1)"
        by (auto simp: r1 list_ex_iff)
    qed
    have quiet: "\<forall>(t, data) \<in> set (notifications env).
        now w1 < t \<and> t < start + 20000 \<longrightarrow> \<not> ?done (decode_ascii_ignore data)"
      using "1.prems"(3) by (auto simp: n1)
    have "\<exists>w' out. await_done env start w1 = (Returned True, w') \<and>
        stdout w' = stdout w1 @ map DeviceSaid out @ [NoDoneWarning, NoDoneHint]"
      using True quiet_log s nf inv quiet by (intro "1.IH") auto
    then obtain w' out where "await_done env start w1 = (Returned True, w')"
      "stdout w' = stdout w1 @ map DeviceSaid out @ [NoDoneWarning, NoDoneHint]"
      by blast
    with True quiet_log s have "await_done env start w = (Returned True, w') \<and>
        stdout w' = stdout w @ map DeviceSaid (hs @ out) @ [NoDoneWarning, NoDoneHint]"
      by (simp add: await_done_sleep o1)
    then show ?thesis
      by blast
  next
    case False
    define hs where "hs = (if subscribed w
      then heard (arrivals env (now w) (now w + int (latency env (tick w)))) else [])"
    from False f have "await_done env start w =
        (Returned True, (suspend env 0 w)\<lparr>subscribed := False, wire := wire w @ [StopNotify],
           stdout := stdout w @ map DeviceSaid hs @ [NoDoneWarning, NoDoneHint]\<rparr>)"
      by (simp add: await_done_timeout bnd_def ret_def print_def stop_notify_def
          suspend_fields hs_def)
    moreover have "stdout ((suspend env 0 w)\<lparr>subscribed := False, wire := wire w @ [StopNotify],
        stdout := stdout w @ map DeviceSaid hs @ [NoDoneWarning, NoDoneHint]\<rparr>) =
        stdout w @ map DeviceSaid hs @ [NoDoneWarning, NoDoneHint]"
      by simp
    ultimately show ?thesis
      by blast
  qed
qed

lemma await_done_report:
  assumes "await_done env start w = (Returned b, w')"
  shows "b \<and> ((\<exists>out. stdout w' = out @ [BlankRule70, UploadedOK, Rule70, CheckProjector]) \<or>
              (\<exists>out. stdout w' = out @ [NoDoneWarning, NoDoneHint]))"
  using assms
proof (induction env start w rule: await_done.induct)
  case (1 env start w)
  let ?found = "list_ex (\<lambda>response. str_in ''done'' (lower response)) (responses w)"
  show ?case
  proof (cases "now w - start < 20000 \<and> \<not> ?found")
    case True
    with "1.prems" obtain u w1 where s: "sleep env 100 w = (Returned u, w1)"
      and "await_done env start w1 = (Returned b, w')"
      by (auto simp: await_done_sleep split: prod.splits outcome.splits)
    with True "1.IH" show ?thesis
      by (cases u) auto
  next
    case False
    with "1.prems" show ?thesis
      by (cases "now w - start < 20000")
         (auto simp: await_done_found await_done_timeout bnd_def ret_def print_def
           split: prod.splits outcome.splits)
  qed
qed

lemma upload_image_report:
  assumes "upload_image lib env image_path chunk_size w = (Returned b, w')"
  shows "(\<not> b \<longrightarrow> (\<exists>out. stdout w' = out @ [FailedOK])) \<and>
         (b \<longrightarrow> (\<exists>out. stdout w' = out @ [BlankRule70, UploadedOK, Rule70, CheckProjector]) \<or>
                (\<exists>out. stdout w' = out @ [NoDoneWarning, NoDoneHint]))"
proof -
  from assms obtain chunks w1 ready w2 where
    rest: "(if \<not> ready then bnd (print FailedOK) (\<lambda>_. ret False)
            else bnd (transfer env chunks) (\<lambda>_. wait_for_completion env)) w2 = (Returned b, w')"
    by (auto simp: upload_image_def bnd_def split: prod.splits outcome.splits)
  show ?thesis
  proof (cases ready)
    case False
    with rest show ?thesis
      by (auto simp: bnd_def ret_def print_def)
  next
    case True
    with rest obtain start w3 where "await_done env start w3 = (Returned b, w')"
      by (auto simp: wait_for_completion_def bnd_def print_def split: prod.splits outcome.splits)
    from await_done_report [OF this] show ?thesis
      by simp
  qed
qed

subsection \<open>A device that never reports completion\<close>

text \<open>The device answers OK at once and never reports completion.\<close>

definition quick_env :: env where
  "quick_env = \<lparr>notifications = [(5, [79, 75])],
                 latency = (\<lambda>k. if k = 1 then 10 else 0),
                 fails = (\<lambda>k. False)\<rparr>"

definition quick_sent :: world where
  "quick_sent = snd (transfer quick_env demo_chunks leaky_mid)"

lemma quick_ready: "send_command quick_env 80 demo_ready = (Returned True, leaky_mid)"
  by (simp add: send_command_def wait_for_response_def bnd_def print_def lift_def ret_def
      bytes_of_def write_gatt_char_def start_notify_def stop_notify_def
      wait_loop_found wait_loop_sleep wait_loop_timeout
      suspend_def arrivals_def fold_notification_handler heard_def
      quick_env_def demo_ready_def fresh_world_def leaky_mid_def log_has_def lower_def
      ascii_lower_def decode_ascii_ignore_def char_of_def strip_def isspace_def Let_def)

lemma quick_transfer: "transfer quick_env demo_chunks leaky_mid = (Returned (), quick_sent)"
proof -
  have "\<forall>k \<ge> tick leaky_mid. \<not> fails quick_env k"
    by (simp add: quick_env_def)
  from transfer_ok [OF this, of demo_chunks] show ?thesis
    by (auto simp: quick_sent_def)
qed

lemma quick_log: "\<not> list_ex (\<lambda>response. str_in ''done'' (lower response)) (responses quick_sent)"
proof -
  have "log_within quick_env {''OK''} leaky_mid"
    by (simp add: log_within_def leaky_mid_def)
  from keepsD [OF keeps_log_transfer this quick_transfer]
  have "set (responses quick_sent) \<subseteq> {''OK''}"
    by (auto simp: log_within_def quick_env_def decode_ascii_ignore_def char_of_def)
  then have "\<forall>r \<in> set (responses quick_sent). r = ''OK''"
    by auto
  then show ?thesis
    by (auto simp: list_ex_iff lower_def ascii_lower_def)
qed

lemma quick_quiet:
  "\<forall>(t, data) \<in> set (notifications quick_env).
     now quick_sent < t \<and> t < now quick_sent + 20000 \<longrightarrow>
     \<not> str_in ''done'' (lower (decode_ascii_ignore data))"
  by (simp add: quick_env_def decode_ascii_ignore_def char_of_def lower_def ascii_lower_def)

subsection \<open>The ready wait\<close>


text \<open>
  The time of the \<open>n\<close>-th poll after a poll made at time \<open>t\<close>, when \<open>k\<close> suspension points
  have been passed: each sleep in between takes 100 ms and what the environment adds.
\<close>

fun poll_time :: "env \<Rightarrow> nat \<Rightarrow> int \<Rightarrow> nat \<Rightarrow> int" where
  "poll_time env k t 0 = t"
| "poll_time env k t (Suc n) = poll_time env (Suc k) (t + 100 + int (latency env k)) n"

lemma poll_time_ge: "t \<le> poll_time env k t n"
proof (induction n arbitrary: k t)
  case 0
  show ?case
    by simp
next
  case (Suc n)
  have "t \<le> t + 100 + int (latency env k)"
    by simp
  also have "\<dots> \<le> poll_time env (Suc k) (t + 100 + int (latency env k)) n"
    by (rule Suc.IH)
  finally show ?case
    by simp
qed

lemma log_has_append: "log_has expected (rs @ ss) \<longleftrightarrow> log_has expected rs \<or> log_has expected ss"
  by (simp add: log_has_def)









subsection \<open>The completion wait, confirmed\<close>

text \<open>A payload whose text contains \<open>done\<close>, letter case aside.\<close>

definition says_done :: "int list \<Rightarrow> bool" where
  "says_done data = str_in ''done'' (lower (decode_ascii_ignore data))"

text \<open>The test of lines 155 and 156 on the log as it stands.\<close>

definition done_logged :: "world \<Rightarrow> bool" where
  "done_logged w = list_ex (\<lambda>response. str_in ''done'' (lower response)) (responses w)"

lemma done_not_blank:
  assumes "str_in ''done'' (lower s)"
  shows "strip s \<noteq> []"
proof -
  from assms have "sublist ''done'' (map ascii_lower s)"
    by (simp add: str_in_sublist lower_def)
  then obtain ps ss where eq: "map ascii_lower s = ps @ ''done'' @ ss"
    by (auto simp: sublist_def)
  have "CHR ''d'' \<in> set (map ascii_lower s)"
    unfolding eq by simp
  then obtain c where c: "c \<in> set s" "ascii_lower c = CHR ''d''"
    by auto
  have "\<not> isspace c"
  proof
    assume "isspace c"
    then have "(of_char c :: int) \<le> 32"
      by (auto simp: isspace_def Let_def)
    then have "ascii_lower c = c"
      by (simp add: ascii_lower_def Let_def)
    with c(2) \<open>(of_char c :: int) \<le> 32\<close> show False
      by simp
  qed
  with c(1) show ?thesis
    by (auto simp: strip_empty_iff)
qed

lemma await_done_heard:
  assumes "\<forall>k \<ge> tick w. \<not> fails env k"
    and "subscribed w"
    and "done_logged w \<or>
         (\<exists>(t, data) \<in> set (notifications env).
            now w < t \<and> t \<le> poll_time env (tick w) (now w) n \<and> says_done data)"
    and "poll_time env (tick w) (now w) n - start < 20000"
  shows "\<exists>w' out. await_done env start w = (Returned True, w') \<and>
           stdout w' = stdout w @ map DeviceSaid out @
             [BlankRule70, UploadedOK, Rule70, CheckProjector]"
  using assms
proof (induction n arbitrary: w)
  case 0
  from "0.prems"(3) have found: "done_logged w"
    by auto
  from "0.prems"(4) have in_time: "now w - start < 20000"
    by simp
  define hs where "hs = heard (arrivals env (now w) (now w + int (latency env (tick w))))"
  from "0.prems"(1) have f: "\<not> fails env (tick w)"
    by simp
  from found in_time f "0.prems"(2) have "await_done env start w =
      (Returned True, (suspend env 0 w)\<lparr>subscribed := False, wire := wire w @ [StopNotify],
         stdout := stdout w @ map DeviceSaid hs @
           [BlankRule70, UploadedOK, Rule70, CheckProjector]\<rparr>)"
    by (simp add: await_done_found done_logged_def bnd_def ret_def print_def stop_notify_def
        suspend_fields hs_def)
  then show ?case
    by simp blast
next
  case (Suc n)
  from Suc.prems(1) have f: "\<not> fails env (tick w)"
    by simp
  have "now w \<le> poll_time env (tick w) (now w) (Suc n)"
    by (rule poll_time_ge)
  with Suc.prems(4) have in_time: "now w - start < 20000"
    by simp
  show ?case
  proof (cases "done_logged w")
    case True
    define hs where "hs = heard (arrivals env (now w) (now w + int (latency env (tick w))))"
    from True in_time f Suc.prems(2) have "await_done env start w =
        (Returned True, (suspend env 0 w)\<lparr>subscribed := False, wire := wire w @ [StopNotify],
           stdout := stdout w @ map DeviceSaid hs @
             [BlankRule70, UploadedOK, Rule70, CheckProjector]\<rparr>)"
      by (simp add: await_done_found done_logged_def bnd_def ret_def print_def stop_notify_def
          suspend_fields hs_def)
    then show ?thesis
      by simp blast
  next
    case False
    define w1 where "w1 = suspend env 100 w"
    define hs where "hs = heard (arrivals env (now w) (now w + 100 + int (latency env (tick w))))"
    from f have s: "sleep env 100 w = (Returned (), w1)"
      by (simp add: sleep_def w1_def)
    have n1: "now w1 = now w + 100 + int (latency env (tick w))"
      and t1: "tick w1 = Suc (tick w)"
      and r1: "responses w1 = responses w @ heard (arrivals env (now w) (now w1))"
      and o1: "stdout w1 = stdout w @ map DeviceSaid hs"
      and s1: "subscribed w1"
      using Suc.prems(2) by (simp_all add: w1_def hs_def now_suspend suspend_fields)
    from Suc.prems(1) have nf: "\<forall>k \<ge> tick w1. \<not> fails env k"
      by (simp add: t1)
    from False Suc.prems(3) obtain t data where hit: "(t, data) \<in> set (notifications env)"
      "now w < t" "t \<le> poll_time env (tick w) (now w) (Suc n)" "says_done data"
      by auto
    from hit(4) have nonblank: "strip (decode_ascii_ignore data) \<noteq> []"
      by (simp add: says_done_def done_not_blank)
    have next_hit: "done_logged w1 \<or>
        (\<exists>(t, data) \<in> set (notifications env).
           now w1 < t \<and> t \<le> poll_time env (tick w1) (now w1) n \<and> says_done data)"
    proof (cases "t \<le> now w1")
      case True
      from arrival_heard [OF hit(1,2) True nonblank]
      have "decode_ascii_ignore data \<in> set (responses w1)"
        by (simp add: r1)
      with hit(4) show ?thesis
        by (auto simp: done_logged_def says_done_def list_ex_iff)
    next
      case False
      then have "now w1 < t"
        by simp
      moreover from hit(3) have "t \<le> poll_time env (tick w1) (now w1) n"
        by (simp add: n1 t1)
      ultimately show ?thesis
        using hit(1,4) by (intro disjI2 bexI [of _ "(t, data)"]) simp_all
    qed
    from Suc.prems(4) have "poll_time env (tick w1) (now w1) n - start < 20000"
      by (simp add: n1 t1)
    from Suc.IH [OF nf s1 next_hit this] obtain w' out where
      "await_done env start w1 = (Returned True, w')"
      "stdout w' = stdout w1 @ map DeviceSaid out @
         [BlankRule70, UploadedOK, Rule70, CheckProjector]"
      by blast
    with False in_time s have "await_done env start w = (Returned True, w') \<and>
        stdout w' = stdout w @ map DeviceSaid (hs @ out) @
          [BlankRule70, UploadedOK, Rule70, CheckProjector]"
      by (simp add: await_done_sleep done_logged_def o1)
    then show ?thesis
      by blast
  qed
qed

text \<open>The transfer subscribes and nothing in it unsubscribes.\<close>

lemma keeps_subscribed_client:
  "keeps subscribed (sleep env ms)"
  "keeps subscribed (write_gatt_char env d r)"
  "keeps subscribed (print l)"
  by (simp_all add: keeps_def sleep_def write_gatt_char_def print_def suspend_fields)

lemma transfer_subscribed:
  assumes "transfer env chunks w = (Returned (), w')"
  shows "subscribed w'"
proof -
  define rest where "rest = bnd (print (UploadingChunks (length chunks))) (\<lambda>_.
      bnd (send_chunks env 0 (length chunks) chunks) (\<lambda>_.
      bnd (print (ProgressComplete (length chunks))) (\<lambda>_. print AllChunksSent)))"
  have k: "keeps subscribed rest"
    unfolding rest_def by (intro keeps_bnd keeps_send_chunks keeps_subscribed_client)
  from assms obtain wa where a: "start_notify env (w\<lparr>stdout := stdout w @ [DeviceReady]\<rparr>) =
      (Returned (), wa)" and r: "rest wa = (Returned (), w')"
    by (auto simp: transfer_def rest_def bnd_def [of "print DeviceReady"]
        bnd_def [of "start_notify env"] print_def [of DeviceReady]
        split: prod.splits outcome.splits)
  from a have "subscribed wa"
    by (auto simp: start_notify_def suspend_fields split: if_splits)
  from keepsD [OF k this r] show ?thesis .
qed

text \<open>
  While the client is subscribed, a notification that has arrived is in the log as soon
  as the coroutine runs again.
\<close>

definition hears :: "int \<Rightarrow> string \<Rightarrow> world \<Rightarrow> bool" where
  "hears t said w = (subscribed w \<and> (t \<le> now w \<longrightarrow> said \<in> set (responses w)))"

lemma hears_suspend:
  assumes "(t, data) \<in> set (notifications env)" "strip (decode_ascii_ignore data) \<noteq> []"
    and "hears t (decode_ascii_ignore data) w"
  shows "hears t (decode_ascii_ignore data) (suspend env d w)"
proof (cases "t \<le> now w")
  case True
  with assms(3) show ?thesis
    by (simp add: hears_def suspend_fields)
next
  case False
  then have "now w < t"
    by simp
  from arrival_heard [OF assms(1) this _ assms(2)] assms(3) show ?thesis
    by (simp add: hears_def suspend_fields now_suspend)
qed

lemma hears_update:
  "hears t said (w\<lparr>wire := a\<rparr>) = hears t said w"
  "hears t said (w\<lparr>stdout := c\<rparr>) = hears t said w"
  by (simp_all add: hears_def)

lemma keeps_hears_client:
  assumes "(t, data) \<in> set (notifications env)" "strip (decode_ascii_ignore data) \<noteq> []"
  shows "keeps (hears t (decode_ascii_ignore data)) (sleep env ms)"
    "keeps (hears t (decode_ascii_ignore data)) (write_gatt_char env d r)"
    "keeps (hears t (decode_ascii_ignore data)) (print l)"
  using assms
  by (simp_all add: keeps_def sleep_def write_gatt_char_def print_def hears_suspend hears_update)

lemma send_chunks_takes:
  assumes "\<forall>k \<ge> tick w. \<not> fails env k"
  shows "\<exists>w'. send_chunks env i n chunks w = (Returned (), w') \<and>
           now w + 10 * int (length chunks) \<le> now w'"
  using assms
proof (induction chunks arbitrary: i w)
  case Nil
  show ?case
    by (simp add: ret_def)
next
  case (Cons chunk rest)
  define wa where "wa = (if i mod 50 = 0 then w\<lparr>stdout := stdout w @ [Progress i n]\<rparr> else w)"
  define wb where "wb = suspend env 0 (wa\<lparr>wire := wire wa @ [Write chunk False]\<rparr>)"
  define wc where "wc = suspend env 10 wb"
  have ta: "tick wa = tick w" "now wa = now w"
    by (simp_all add: wa_def)
  have tb: "tick wb = Suc (tick w)" "now w \<le> now wb"
    by (simp_all add: wb_def suspend_fields now_suspend ta)
  have tc: "tick wc = Suc (Suc (tick w))" "now w + 10 \<le> now wc"
    using tb by (simp_all add: wc_def suspend_fields now_suspend)
  from Cons.prems have f: "\<not> fails env (tick w)" "\<not> fails env (Suc (tick w))"
    by simp_all
  have step: "send_chunks env i n (chunk # rest) w = send_chunks env (i + 1) n rest wc"
    using f
    by (simp add: bnd_def print_def ret_def write_gatt_char_def sleep_def
        wa_def wb_def wc_def suspend_fields)
  from Cons.prems have "\<forall>k \<ge> tick wc. \<not> fails env k"
    by (simp add: tc)
  from Cons.IH [OF this, of "i + 1"] obtain w' where
    "send_chunks env (i + 1) n rest wc = (Returned (), w')"
    "now wc + 10 * int (length rest) \<le> now w'"
    by blast
  with step tc show ?case
    by simp
qed

lemma transfer_hears:
  assumes "\<forall>k \<ge> tick w. \<not> fails env k"
    and "(t, data) \<in> set (notifications env)" "strip (decode_ascii_ignore data) \<noteq> []"
    and "now w < t" "t \<le> now w + 10 * int (length chunks)"
    and "transfer env chunks w = (Returned (), w')"
  shows "decode_ascii_ignore data \<in> set (responses w')" "t \<le> now w'"
proof -
  let ?said = "decode_ascii_ignore data"
  define wa where "wa = (suspend env 0 (w\<lparr>stdout := stdout w @ [DeviceReady],
      subscribed := True, wire := wire w @ [StartNotify]\<rparr>))"
  define wb where "wb = wa\<lparr>stdout := stdout wa @ [UploadingChunks (length chunks)]\<rparr>"
  have ta: "tick wa = Suc (tick w)" "now w \<le> now wa" "subscribed wa"
    "responses wa = responses w @ heard (arrivals env (now w) (now wa))"
    by (simp_all add: wa_def suspend_fields now_suspend)
  have "hears t ?said wa"
    using arrival_heard [OF assms(2,4) _ assms(3), of "now wa"] ta
    by (simp add: hears_def)
  then have hb: "hears t ?said wb"
    by (simp add: wb_def hears_update)
  from assms(1) have "\<forall>k \<ge> tick wb. \<not> fails env k"
    by (simp add: wb_def ta)
  from send_chunks_takes [OF this, of 0 "length chunks" chunks] obtain wc where
    c: "send_chunks env 0 (length chunks) chunks wb = (Returned (), wc)"
    "now wb + 10 * int (length chunks) \<le> now wc"
    by blast
  have "keeps (hears t ?said) (send_chunks env 0 (length chunks) chunks)"
    by (intro keeps_send_chunks keeps_hears_client [OF assms(2,3)])
  from keepsD [OF this hb c(1)] have hc: "hears t ?said wc" .
  from assms(1) have "\<not> fails env (tick w)"
    by simp
  then have "transfer env chunks w =
      (Returned (), wc\<lparr>stdout := stdout wc @ [ProgressComplete (length chunks), AllChunksSent]\<rparr>)"
    using c(1)
    by (simp add: transfer_def bnd_def print_def start_notify_def wa_def wb_def)
  with assms(6) have w': "w' = wc\<lparr>stdout := stdout wc @ [ProgressComplete (length chunks), AllChunksSent]\<rparr>"
    by simp
  from c(2) ta(2) assms(5) have late: "t \<le> now wc"
    by (simp add: wb_def)
  with hc show "?said \<in> set (responses w')" "t \<le> now w'"
    by (simp_all add: w' hears_def)
qed

subsection \<open>The three reports\<close>

lemma upload_image_awaits:
  assumes "prepare_upload lib image_path chunk_size w = (Returned chunks, w1)"
    and "send_command env chunk_size w1 = (Returned True, w2)"
    and "transfer env chunks w2 = (Returned (), w3)"
  shows "upload_image lib env image_path chunk_size w =
           await_done env (now w3) (w3\<lparr>stdout := stdout w3 @ [WaitingForDevice]\<rparr>)"
  using assms
  by (simp add: upload_image_def wait_for_completion_def bnd_def print_def)

lemma upload_image_soft:
  assumes "prepare_upload lib image_path chunk_size w = (Returned chunks, w1)"
    and "send_command env chunk_size w1 = (Returned True, w2)"
    and "transfer env chunks w2 = (Returned (), w3)"
    and "\<forall>k \<ge> tick w3. \<not> fails env k"
    and "\<not> done_logged w3"
    and "\<forall>(t, data) \<in> set (notifications env).
           now w3 < t \<and> t < now w3 + 20000 \<longrightarrow> \<not> says_done data"
  shows "\<exists>w' out. upload_image lib env image_path chunk_size w = (Returned True, w') \<and>
           stdout w' = stdout w3 @ WaitingForDevice # map DeviceSaid out @
             [NoDoneWarning, NoDoneHint]"
proof -
  define w4 where "w4 = w3\<lparr>stdout := stdout w3 @ [WaitingForDevice]\<rparr>"
  have "\<exists>w' out. await_done env (now w3) w4 = (Returned True, w') \<and>
      stdout w' = stdout w4 @ map DeviceSaid out @ [NoDoneWarning, NoDoneHint]"
    using assms(4-6) by (intro await_done_soft) (simp_all add: w4_def done_logged_def says_done_def)
  then show ?thesis
    by (simp add: upload_image_awaits [OF assms(1-3)] w4_def)
qed

lemma upload_image_confirmed:
  assumes "prepare_upload lib image_path chunk_size w = (Returned chunks, w1)"
    and "send_command env chunk_size w1 = (Returned True, w2)"
    and "transfer env chunks w2 = (Returned (), w3)"
    and "\<forall>k \<ge> tick w3. \<not> fails env k"
    and "done_logged w3 \<or>
         (\<exists>(t, data) \<in> set (notifications env).
            now w3 < t \<and> t \<le> poll_time env (tick w3) (now w3) n \<and> says_done data)"
    and "poll_time env (tick w3) (now w3) n < now w3 + 20000"
  shows "\<exists>w' out. upload_image lib env image_path chunk_size w = (Returned True, w') \<and>
           stdout w' = stdout w3 @ WaitingForDevice # map DeviceSaid out @
             [BlankRule70, UploadedOK, Rule70, CheckProjector]"
proof -
  define w4 where "w4 = w3\<lparr>stdout := stdout w3 @ [WaitingForDevice]\<rparr>"
  from transfer_subscribed [OF assms(3)] have s: "subscribed w4"
    by (simp add: w4_def)
  from assms(4) have nf: "\<forall>k \<ge> tick w4. \<not> fails env k"
    by (simp add: w4_def)
  from assms(5) have hit: "done_logged w4 \<or>
      (\<exists>(t, data) \<in> set (notifications env).
         now w4 < t \<and> t \<le> poll_time env (tick w4) (now w4) n \<and> says_done data)"
    by (simp add: w4_def done_logged_def)
  from assms(6) have "poll_time env (tick w4) (now w4) n - now w3 < 20000"
    by (simp add: w4_def)
  from await_done_heard [OF nf s hit this] show ?thesis
    by (simp add: upload_image_awaits [OF assms(1-3)] w4_def)
qed

text \<open>
  The device answers OK at once and reports \<open>Done\<close> 5 ms after the last chunk was
  written, while the uploader is still in the 10 ms sleep that follows that write.
\<close>

definition eager_env :: env where
  "eager_env = \<lparr>notifications = [(5, [79, 75]), (4805, [68, 111, 110, 101])],
                 latency = (\<lambda>k. if k = 1 then 10 else 0),
                 fails = (\<lambda>k. False)\<rparr>"

definition eager_sent :: world where
  "eager_sent = snd (transfer eager_env demo_chunks leaky_mid)"

lemma eager_ready: "send_command eager_env 80 demo_ready = (Returned True, leaky_mid)"
  by (simp add: send_command_def wait_for_response_def bnd_def print_def lift_def ret_def
      bytes_of_def write_gatt_char_def start_notify_def stop_notify_def
      wait_loop_found wait_loop_sleep wait_loop_timeout
      suspend_def arrivals_def fold_notification_handler heard_def
      eager_env_def demo_ready_def fresh_world_def leaky_mid_def log_has_def lower_def
      ascii_lower_def decode_ascii_ignore_def char_of_def strip_def isspace_def Let_def)

lemma eager_transfer: "transfer eager_env demo_chunks leaky_mid = (Returned (), eager_sent)"
proof -
  have "\<forall>k \<ge> tick leaky_mid. \<not> fails eager_env k"
    by (simp add: eager_env_def)
  from transfer_ok [OF this, of demo_chunks] show ?thesis
    by (auto simp: eager_sent_def)
qed

lemma eager_log: "''Done'' \<in> set (responses eager_sent)" "4805 \<le> now eager_sent"
proof -
  have nf: "\<forall>k \<ge> tick leaky_mid. \<not> fails eager_env k"
    by (simp add: eager_env_def)
  have said: "decode_ascii_ignore [68, 111, 110, 101] = ''Done''"
    by (simp add: decode_ascii_ignore_def char_of_def)
  have "(4805, [68, 111, 110, 101]) \<in> set (notifications eager_env)"
    by (simp add: eager_env_def)
  moreover have "strip (decode_ascii_ignore [68, 111, 110, 101]) \<noteq> []"
    by (simp add: said strip_def isspace_def)
  moreover have "now leaky_mid < 4805" "4805 \<le> now leaky_mid + 10 * int (length demo_chunks)"
    by (simp_all add: leaky_mid_def demo_chunks)
  ultimately have "decode_ascii_ignore [68, 111, 110, 101] \<in> set (responses eager_sent)"
    and late: "4805 \<le> now eager_sent"
    using eager_transfer by (rule transfer_hears [OF nf])+
  then show "''Done'' \<in> set (responses eager_sent)" "4805 \<le> now eager_sent"
    by (simp_all add: said)
qed

lemma eager_done: "done_logged eager_sent"
proof -
  have "str_in ''done'' (lower ''Done'')"
    by (simp add: lower_def ascii_lower_def char_of_def)
  with eager_log(1) show ?thesis
    by (auto simp: done_logged_def list_ex_iff)
qed

text \<open>
  C6, as stated, fails: all chunks were sent and no notification arrives within the 20
  seconds of the completion wait, whose clock is read no earlier than 4805 ms, when
  the only notification containing \<open>done\<close> had arrived; the log is never cleared, the
  first poll finds that text, and the session prints the confirmed success.
\<close>

theorem logged_done_counterexample:
  "notifications eager_env = [(5, [79, 75]), (4805, [68, 111, 110, 101])] \<and>
   prepare_upload demo_pil ''sketch.png'' 80 fresh_world = (Returned demo_chunks, demo_ready) \<and>
   send_command eager_env 80 demo_ready = (Returned True, leaky_mid) \<and>
   transfer eager_env demo_chunks leaky_mid = (Returned (), eager_sent) \<and>
   4805 \<le> now eager_sent \<and>
   (\<exists>w' out. upload_image demo_pil eager_env ''sketch.png'' 80 fresh_world = (Returned True, w') \<and>
      stdout w' = stdout eager_sent @ WaitingForDevice # map DeviceSaid out @
        [BlankRule70, UploadedOK, Rule70, CheckProjector])"
proof -
  have nf: "\<forall>k \<ge> tick eager_sent. \<not> fails eager_env k"
    by (simp add: eager_env_def)
  have "poll_time eager_env (tick eager_sent) (now eager_sent) 0 < now eager_sent + 20000"
    by simp
  from upload_image_confirmed [OF demo_prepare eager_ready eager_transfer nf _ this] eager_done
  have "\<exists>w' out. upload_image demo_pil eager_env ''sketch.png'' 80 fresh_world = (Returned True, w') \<and>
      stdout w' = stdout eager_sent @ WaitingForDevice # map DeviceSaid out @
        [BlankRule70, UploadedOK, Rule70, CheckProjector]"
    by simp
  then show ?thesis
    using demo_prepare eager_ready eager_transfer eager_log(2)
    by (simp add: eager_env_def)
qed

text \<open>
  C6, amended. Let all chunks have been sent, the transport not raise from then on, and
  \<open>w3\<close> be the state in which the completion wait begins.

  \<^item> If no text containing \<open>done\<close> is in the log at \<open>w3\<close> and no notification containing
    \<open>done\<close> arrives within the 20 seconds of the wait, \<^verbatim>\<open>upload_image\<close> returns \<open>True\<close> and
    prints, after the chunks, the waiting line, what the device said, and the two lines
    of the warning that completion was not confirmed; it does not print the success line.
  \<^item> If a text containing \<open>done\<close> is in the log at \<open>w3\<close>, or a notification containing
    \<open>done\<close> arrives no later than a poll made within the 20 seconds, \<^verbatim>\<open>upload_image\<close>
    returns \<open>True\<close> and prints, after the chunks, the waiting line, what the device said,
    and the four lines of the confirmed success; it does not print the warning.
  \<^item> In every run that returns, \<open>False\<close> comes with the line of the hard failure as the
    last line of output, and \<open>True\<close> with the success lines or the warning lines.

  So the soft success differs from the hard failure in the return value and from the
  confirmed success in the lines printed last.
\<close>

theorem completion_timeout_soft_success:
  assumes "prepare_upload lib image_path chunk_size w = (Returned chunks, w1)"
    and "send_command env chunk_size w1 = (Returned True, w2)"
    and "transfer env chunks w2 = (Returned (), w3)"
    and "\<forall>k \<ge> tick w3. \<not> fails env k"
  shows "(\<not> done_logged w3 \<and>
          (\<forall>(t, data) \<in> set (notifications env).
             now w3 < t \<and> t < now w3 + 20000 \<longrightarrow> \<not> says_done data) \<longrightarrow>
          (\<exists>w' out. upload_image lib env image_path chunk_size w = (Returned True, w') \<and>
             stdout w' = stdout w3 @ WaitingForDevice # map DeviceSaid out @
               [NoDoneWarning, NoDoneHint] \<and>
             UploadedOK \<notin> set (drop (length (stdout w3)) (stdout w')))) \<and>
         (done_logged w3 \<or>
          (\<exists>n. poll_time env (tick w3) (now w3) n < now w3 + 20000 \<and>
             (\<exists>(t, data) \<in> set (notifications env).
                now w3 < t \<and> t \<le> poll_time env (tick w3) (now w3) n \<and> says_done data)) \<longrightarrow>
          (\<exists>w' out. upload_image lib env image_path chunk_size w = (Returned True, w') \<and>
             stdout w' = stdout w3 @ WaitingForDevice # map DeviceSaid out @
               [BlankRule70, UploadedOK, Rule70, CheckProjector] \<and>
             NoDoneWarning \<notin> set (drop (length (stdout w3)) (stdout w')))) \<and>
         (\<forall>lib' env' path' size' v b v'.
            upload_image lib' env' path' size' v = (Returned b, v') \<longrightarrow>
              (\<not> b \<longrightarrow> (\<exists>out. stdout v' = out @ [FailedOK])) \<and>
              (b \<longrightarrow> (\<exists>out. stdout v' = out @ [BlankRule70, UploadedOK, Rule70, CheckProjector]) \<or>
                     (\<exists>out. stdout v' = out @ [NoDoneWarning, NoDoneHint])))"
proof (intro conjI impI)
  assume "\<not> done_logged w3 \<and>
      (\<forall>(t, data) \<in> set (notifications env).
         now w3 < t \<and> t < now w3 + 20000 \<longrightarrow> \<not> says_done data)"
  then have "\<exists>w' out. upload_image lib env image_path chunk_size w = (Returned True, w') \<and>
      stdout w' = stdout w3 @ WaitingForDevice # map DeviceSaid out @
        [NoDoneWarning, NoDoneHint]"
    by (intro upload_image_soft [OF assms]) simp_all
  then obtain w' out where run: "upload_image lib env image_path chunk_size w = (Returned True, w')"
    and out: "stdout w' = stdout w3 @ WaitingForDevice # map DeviceSaid out @
        [NoDoneWarning, NoDoneHint]"
    by blast
  from out have "UploadedOK \<notin> set (drop (length (stdout w3)) (stdout w'))"
    by auto
  with run out show "\<exists>w' out. upload_image lib env image_path chunk_size w = (Returned True, w') \<and>
      stdout w' = stdout w3 @ WaitingForDevice # map DeviceSaid out @
        [NoDoneWarning, NoDoneHint] \<and>
      UploadedOK \<notin> set (drop (length (stdout w3)) (stdout w'))"
    by blast
next
  assume "done_logged w3 \<or>
      (\<exists>n. poll_time env (tick w3) (now w3) n < now w3 + 20000 \<and>
         (\<exists>(t, data) \<in> set (notifications env).
            now w3 < t \<and> t \<le> poll_time env (tick w3) (now w3) n \<and> says_done data))"
  then obtain n where "poll_time env (tick w3) (now w3) n < now w3 + 20000"
    and "done_logged w3 \<or>
       (\<exists>(t, data) \<in> set (notifications env).
          now w3 < t \<and> t \<le> poll_time env (tick w3) (now w3) n \<and> says_done data)"
  proof
    assume "done_logged w3"
    moreover have "poll_time env (tick w3) (now w3) 0 < now w3 + 20000"
      by simp
    ultimately show ?thesis
      by (intro that [of 0]) simp_all
  next
    assume "\<exists>n. poll_time env (tick w3) (now w3) n < now w3 + 20000 \<and>
         (\<exists>(t, data) \<in> set (notifications env).
            now w3 < t \<and> t \<le> poll_time env (tick w3) (now w3) n \<and> says_done data)"
    then show ?thesis
      using that by blast
  qed
  from upload_image_confirmed [OF assms this(2,1)]
  obtain w' out where run: "upload_image lib env image_path chunk_size w = (Returned True, w')"
    and out: "stdout w' = stdout w3 @ WaitingForDevice # map DeviceSaid out @
        [BlankRule70, UploadedOK, Rule70, CheckProjector]"
    by blast
  from out have "NoDoneWarning \<notin> set (drop (length (stdout w3)) (stdout w'))"
    by auto
  with run out show "\<exists>w' out. upload_image lib env image_path chunk_size w = (Returned True, w') \<and>
      stdout w' = stdout w3 @ WaitingForDevice # map DeviceSaid out @
        [BlankRule70, UploadedOK, Rule70, CheckProjector] \<and>
      NoDoneWarning \<notin> set (drop (length (stdout w3)) (stdout w'))"
    by blast
next
  show "\<forall>lib' env' path' size' v b v'.
      upload_image lib' env' path' size' v = (Returned b, v') \<longrightarrow>
        (\<not> b \<longrightarrow> (\<exists>out. stdout v' = out @ [FailedOK])) \<and>
        (b \<longrightarrow> (\<exists>out. stdout v' = out @ [BlankRule70, UploadedOK, Rule70, CheckProjector]) \<or>
               (\<exists>out. stdout v' = out @ [NoDoneWarning, NoDoneHint]))"
    using upload_image_report by blast
qed

theorem completion_timeout_soft_success_witness:
  "notifications quick_env = [(5, [79, 75])] \<and>
   transfer quick_env demo_chunks leaky_mid = (Returned (), quick_sent) \<and>
   \<not> done_logged quick_sent \<and>
   (\<exists>w' out. upload_image demo_pil quick_env ''sketch.png'' 80 fresh_world = (Returned True, w') \<and>
      stdout w' = stdout quick_sent @ WaitingForDevice # map DeviceSaid out @
        [NoDoneWarning, NoDoneHint] \<and>
      UploadedOK \<notin> set (drop (length (stdout quick_sent)) (stdout w'))) \<and>
   transfer eager_env demo_chunks leaky_mid = (Returned (), eager_sent) \<and>
   done_logged eager_sent \<and>
   (\<exists>w' out. upload_image demo_pil eager_env ''sketch.png'' 80 fresh_world = (Returned True, w') \<and>
      stdout w' = stdout eager_sent @ WaitingForDevice # map DeviceSaid out @
        [BlankRule70, UploadedOK, Rule70, CheckProjector] \<and>
      NoDoneWarning \<notin> set (drop (length (stdout eager_sent)) (stdout w')))"
proof -
  have quiet_log: "\<not> done_logged quick_sent"
    using quick_log by (simp add: done_logged_def)
  have quiet: "\<forall>(t, data) \<in> set (notifications quick_env).
      now quick_sent < t \<and> t < now quick_sent + 20000 \<longrightarrow> \<not> says_done data"
    using quick_quiet by (simp add: says_done_def)
  have "\<forall>k \<ge> tick quick_sent. \<not> fails quick_env k"
    by (simp add: quick_env_def)
  from completion_timeout_soft_success [OF demo_prepare quick_ready quick_transfer this]
    quiet_log quiet
  have soft: "\<exists>w' out. upload_image demo_pil quick_env ''sketch.png'' 80 fresh_world = (Returned True, w') \<and>
      stdout w' = stdout quick_sent @ WaitingForDevice # map DeviceSaid out @
        [NoDoneWarning, NoDoneHint] \<and>
      UploadedOK \<notin> set (drop (length (stdout quick_sent)) (stdout w'))"
    by blast
  have "\<forall>k \<ge> tick eager_sent. \<not> fails eager_env k"
    by (simp add: eager_env_def)
  from completion_timeout_soft_success [OF demo_prepare eager_ready eager_transfer this]
    eager_done
  have confirmed: "\<exists>w' out. upload_image demo_pil eager_env ''sketch.png'' 80 fresh_world = (Returned True, w') \<and>
      stdout w' = stdout eager_sent @ WaitingForDevice # map DeviceSaid out @
        [BlankRule70, UploadedOK, Rule70, CheckProjector] \<and>
      NoDoneWarning \<notin> set (drop (length (stdout eager_sent)) (stdout w'))"
    by blast
  have "notifications quick_env = [(5, [79, 75])]"
    by (simp add: quick_env_def)
  with soft confirmed quiet_log eager_done quick_transfer eager_transfer show ?thesis
    by blast
qed

subsection \<open>The ready wait, from the command on\<close>








end
